theory Spec2Isabelle
  imports Main
begin

section \<open>Data model\<close>

text \<open>
  The class \<open>interval_map<K, V>\<close> of \<open>Interval_map_solution.cpp\<close> has two fields: the value
  \<open>m_valBegin\<close> and the \<open>std::map<K, V>\<close> called \<open>m_map\<close>. A \<open>std::map\<close> is modelled as
  the list of its entries in iteration order, that is a list of pairs whose keys are
  strictly increasing (\<open>sorted_keys\<close>). The key type only offers \<open><\<close>, a strict total
  order (\<open>linorder\<close>); the value type only offers equality. A stored value is a copy of
  the argument it came from; what a call leaves in an argument it has forwarded is a
  parameter of \<open>insert_new\<close> below.
\<close>

record ('k, 'v) interval_map =
  m_valBegin :: 'v
  m_map :: "('k \<times> 'v) list"

definition sorted_keys :: "('k::linorder \<times> 'v) list \<Rightarrow> bool" where
  "sorted_keys xs = sorted_wrt (<) (map fst xs)"

text \<open>
  What the C++ standard leaves undefined is an error value of the model: reading through
  \<open>end()\<close>, erasing \<open>end()\<close>, and erasing through an iterator whose node is already
  erased.
\<close>

datatype error = EndDereferenced | EndErased | InvalidIterator

section \<open>The operations of \<open>std::map\<close> that the class uses\<close>

text \<open>
  An iterator into the map is modelled by the key of the node it points to (keys are
  unique), and a position that is scanned forward by the suffix of the entry list
  starting there; \<open>end()\<close> is the empty suffix.
\<close>

fun insert_or_assign :: "'k::linorder \<Rightarrow> 'v \<Rightarrow> ('k \<times> 'v) list \<Rightarrow> ('k \<times> 'v) list" where
  "insert_or_assign k v [] = [(k, v)]"
| "insert_or_assign k v ((k', v') # xs) =
     (if k < k' then (k, v) # (k', v') # xs
      else if k' < k then (k', v') # insert_or_assign k v xs
      else (k', v) # xs)"

definition erase :: "'k \<Rightarrow> ('k \<times> 'v) list \<Rightarrow> ('k \<times> 'v) list" where
  "erase k xs = filter (\<lambda>e. fst e \<noteq> k) xs"

definition lower_bound :: "'k::linorder \<Rightarrow> ('k \<times> 'v) list \<Rightarrow> ('k \<times> 'v) list" where
  "lower_bound k xs = dropWhile (\<lambda>e. fst e < k) xs"

text \<open>\<open>std::next(it)\<close> and the entries before \<open>it\<close>, for the iterator of the node with key \<open>k\<close>.\<close>

definition next_of :: "'k \<Rightarrow> ('k \<times> 'v) list \<Rightarrow> ('k \<times> 'v) list" where
  "next_of k xs = tl (dropWhile (\<lambda>e. fst e \<noteq> k) xs)"

definition before :: "'k \<Rightarrow> ('k \<times> 'v) list \<Rightarrow> ('k \<times> 'v) list" where
  "before k xs = takeWhile (\<lambda>e. fst e \<noteq> k) xs"

section \<open>\<open>assign\<close>\<close>

text \<open>
  The loop of lines 60 to 92. It runs from \<open>itBegin = lower_bound(keyBegin)\<close> up to and
  including \<open>itEnd = lower_bound(keyEnd)\<close>, the first entry whose key is not less than
  \<open>keyEnd\<close>; it only reads the map. The state is the pending \<open>resized\<close> pair and the
  vector \<open>will_delete\<close>.
\<close>

fun scan :: "'k::linorder \<Rightarrow> 'k \<Rightarrow> 'v \<Rightarrow> ('k \<times> 'v) list
    \<Rightarrow> ('k \<times> 'v) option \<times> 'k list \<Rightarrow> ('k \<times> 'v) option \<times> 'k list" where
  "scan keyBegin keyEnd val [] st = st"
| "scan keyBegin keyEnd val ((k, v) # rest) (resized, will_delete) =
     (let st' =
        (if \<not> keyBegin < k \<and> \<not> k < keyBegin \<and> v = val then
           (case rest of
              [] \<Rightarrow> (resized, will_delete)
            | (k', v') # _ \<Rightarrow>
                if v' = val then (resized, will_delete @ [k']) else (resized, will_delete))
         else if \<not> keyEnd < k \<and> v = val then (resized, will_delete @ [k])
         else if \<not> k < keyBegin \<and> k < keyEnd then
           ((case rest of
               [] \<Rightarrow> resized
             | (k', v') # _ \<Rightarrow> if keyEnd < k' then Some (keyEnd, v) else resized),
            will_delete @ [k])
         else (resized, will_delete))
      in if k < keyEnd then scan keyBegin keyEnd val rest st' else st')"

text \<open>The loop of lines 101 to 104: erase every collected iterator, in order.\<close>

fun erase_all :: "'k list \<Rightarrow> ('k \<times> 'v) list \<Rightarrow> error + ('k \<times> 'v) list" where
  "erase_all [] xs = Inr xs"
| "erase_all (k # ks) xs =
     (if k \<in> fst ` set xs then erase_all ks (erase k xs) else Inl InvalidIterator)"

text \<open>
  Lines 108 to 129. Two things that the source leaves to the call site and to the
  implementation are parameters here.

  \<^item> Line 109 hands \<open>std::forward<V_forward>(val)\<close> to \<open>insert_or_assign\<close>, and lines
    114 and 124 compare with \<open>val\<close> afterwards. \<open>val_now\<close> is the argument as it is after
    line 109: equal to \<open>val\<close> when the caller passed an lvalue or \<open>V\<close> is trivially
    copyable, the moved-from object when the caller passed a temporary of class type
    (the empty string for a \<open>std::string\<close>).
  \<^item> The test \<open>insert != m_map.end()\<close> is always true, since \<open>insert_or_assign\<close> returns
    the iterator of the entry at \<open>keyBegin\<close>; so \<open>what_after = std::next(insert)\<close> is
    read whether or not it is \<open>end()\<close>. \<open>past_end\<close> is what that read gives when
    \<open>what_after\<close> is \<open>end()\<close>: \<open>None\<close> when the read is the failure that the standard
    makes it, \<open>Some g\<close> when it yields the value \<open>g\<close>. If \<open>g\<close> compares equal, line 116
    erases \<open>end()\<close>.
\<close>

definition insert_new :: "'k::linorder \<Rightarrow> 'v \<Rightarrow> 'v \<Rightarrow> 'v option \<Rightarrow> ('k \<times> 'v) list
    \<Rightarrow> error + ('k \<times> 'v) list" where
  "insert_new keyBegin val val_now past_end xs =
     (let xs1 = insert_or_assign keyBegin val xs in
      case (case next_of keyBegin xs1 of
              [] \<Rightarrow>
                (case past_end of
                   None \<Rightarrow> Inl EndDereferenced
                 | Some g \<Rightarrow> if g = val_now then Inl EndErased else Inr xs1)
            | (ka, va) # _ \<Rightarrow> Inr (if va = val_now then erase ka xs1 else xs1)) of
        Inl e \<Rightarrow> Inl e
      | Inr xs2 \<Rightarrow>
          if before keyBegin xs2 \<noteq> [] then
            (if snd (last (before keyBegin xs2)) = val_now then Inr (erase keyBegin xs2)
             else Inr xs2)
          else Inr xs2)"

text \<open>Lines 132 to 135.\<close>

fun canonize_front :: "'v \<Rightarrow> ('k \<times> 'v) list \<Rightarrow> ('k \<times> 'v) list" where
  "canonize_front d [] = []"
| "canonize_front d ((k, v) # xs) = (if v = d then canonize_front d xs else (k, v) # xs)"

text \<open>Lines 138 to 160.\<close>

definition canonize_back :: "'v \<Rightarrow> ('k \<times> 'v) list \<Rightarrow> ('k \<times> 'v) list" where
  "canonize_back d xs =
     (if xs \<noteq> [] then
        (if snd (last xs) = d then
           (if length xs > 1 then
              (if snd (last (butlast xs)) = d then
                 (if length xs = 2 then [] else butlast xs)
               else xs)
            else butlast xs)
         else xs)
      else xs)"

text \<open>
  \<open>assign\<close>, lines 25 to 176, with the two parameters of \<open>insert_new\<close>. The comparisons of
  lines 40 and 65 to 74 come before line 109 and see the argument as passed.
\<close>

definition assign_with :: "('k::linorder, 'v) interval_map \<Rightarrow> 'k \<Rightarrow> 'k \<Rightarrow> 'v \<Rightarrow> 'v \<Rightarrow> 'v option
    \<Rightarrow> error + ('k, 'v) interval_map" where
  "assign_with m keyBegin keyEnd val val_now past_end =
     (if \<not> keyBegin < keyEnd then Inr m
      else if m_map m = [] then
        (if val \<noteq> m_valBegin m then
           Inr (m\<lparr>m_map := insert_or_assign keyBegin val
                    (insert_or_assign keyEnd (m_valBegin m) (m_map m))\<rparr>)
         else Inr m)
      else
        (let last_key = (if fst (last (m_map m)) < keyEnd then keyEnd else fst (last (m_map m)));
             (resized, will_delete) =
                scan keyBegin keyEnd val (lower_bound keyBegin (m_map m)) (None, []);
             xs1 = (case resized of
                      None \<Rightarrow> m_map m
                    | Some (k, v) \<Rightarrow> insert_or_assign k v (m_map m))
         in case erase_all will_delete xs1 of
              Inl e \<Rightarrow> Inl e
            | Inr xs2 \<Rightarrow>
                (case insert_new keyBegin val val_now past_end xs2 of
                   Inl e \<Rightarrow> Inl e
                 | Inr xs3 \<Rightarrow>
                     (let xs4 = canonize_back (m_valBegin m) (canonize_front (m_valBegin m) xs3)
                      in if xs4 = [] then Inr (m\<lparr>m_map := xs4\<rparr>)
                         else if snd (last xs4) \<noteq> m_valBegin m then
                           Inr (m\<lparr>m_map := insert_or_assign last_key (m_valBegin m) xs4\<rparr>)
                         else Inr (m\<lparr>m_map := xs4\<rparr>)))))"

text \<open>
  The call with an lvalue argument (or a trivially copyable \<open>V\<close>, as the \<open>char\<close> of the
  tests), the read through \<open>end()\<close> taken as the failure it is by the standard.
\<close>

definition assign :: "('k::linorder, 'v) interval_map \<Rightarrow> 'k \<Rightarrow> 'k \<Rightarrow> 'v
    \<Rightarrow> error + ('k, 'v) interval_map" where
  "assign m keyBegin keyEnd val = assign_with m keyBegin keyEnd val val None"

section \<open>Lookup, the canonicity check, size, construction\<close>

text \<open>
  \<open>operator[]\<close>: \<open>upper_bound(key)\<close> is the first entry whose key is greater than \<open>key\<close>;
  the entry before it, if any, gives the value.
\<close>

definition value_at :: "('k::linorder, 'v) interval_map \<Rightarrow> 'k \<Rightarrow> 'v" where
  "value_at m key =
     (let upto = takeWhile (\<lambda>e. \<not> key < fst e) (m_map m)
      in if upto = [] then m_valBegin m else snd (last upto))"

fun differs_from_prev :: "'v \<Rightarrow> ('k \<times> 'v) list \<Rightarrow> bool" where
  "differs_from_prev prev_value [] = True"
| "differs_from_prev prev_value ((k, v) # xs) =
     (if v = prev_value then False else differs_from_prev v xs)"

definition is_canonical :: "('k, 'v) interval_map \<Rightarrow> bool" where
  "is_canonical m =
     (case m_map m of
        [] \<Rightarrow> True
      | (k, v) # xs \<Rightarrow> if v = m_valBegin m then False else differs_from_prev v xs)"

definition size_of :: "('k, 'v) interval_map \<Rightarrow> nat" where
  "size_of m = length (m_map m)"

definition new_map :: "'v \<Rightarrow> ('k, 'v) interval_map" where
  "new_map val = \<lparr>m_valBegin = val, m_map = []\<rparr>"

text \<open>A sequence of calls of \<open>assign\<close>; it stops at the first call that fails.\<close>

fun assign_all :: "('k::linorder, 'v) interval_map \<Rightarrow> ('k \<times> 'k \<times> 'v) list
    \<Rightarrow> error + ('k, 'v) interval_map" where
  "assign_all m [] = Inr m"
| "assign_all m ((keyBegin, keyEnd, val) # calls) =
     (case assign m keyBegin keyEnd val of
        Inl e \<Rightarrow> Inl e
      | Inr m' \<Rightarrow> assign_all m' calls)"

text \<open>
  A sequence of calls, each with its own \<open>val_now\<close> and \<open>past_end\<close>: the arguments
  \<open>(keyBegin, keyEnd, val)\<close>, how the caller passed \<open>val\<close>, and what a read through
  \<open>end()\<close> gives during that call.
\<close>

fun assign_all_with :: "('k::linorder, 'v) interval_map
    \<Rightarrow> ('k \<times> 'k \<times> 'v \<times> 'v \<times> 'v option) list \<Rightarrow> error + ('k, 'v) interval_map" where
  "assign_all_with m [] = Inr m"
| "assign_all_with m ((keyBegin, keyEnd, val, val_now, past_end) # calls) =
     (case assign_with m keyBegin keyEnd val val_now past_end of
        Inl e \<Rightarrow> Inl e
      | Inr m' \<Rightarrow> assign_all_with m' calls)"

text \<open>
  A call whose argument is unchanged by line 109 and in which a read through \<open>end()\<close>
  yields a value that does not compare equal to it.
\<close>

definition plain_call :: "'k \<times> 'k \<times> 'v \<times> 'v \<times> 'v option \<Rightarrow> bool" where
  "plain_call c =
     (case c of (keyBegin, keyEnd, val, val_now, past_end) \<Rightarrow>
        val_now = val \<and> past_end \<noteq> None \<and> past_end \<noteq> Some val)"

text \<open>
  Lines 132 to 173 as one function of the entries left by lines 108 to 129: the two
  canonization steps and the entry at \<open>last_key\<close>.
\<close>

definition finish :: "'v \<Rightarrow> 'k::linorder \<Rightarrow> ('k \<times> 'v) list \<Rightarrow> ('k \<times> 'v) list" where
  "finish d last_key xs3 =
     (let xs4 = canonize_back d (canonize_front d xs3)
      in if xs4 = [] then xs4
         else if snd (last xs4) \<noteq> d then insert_or_assign last_key d xs4
         else xs4)"

text \<open>
  Two forms of a map. \<open>bounded\<close>: the keys increase and, if there are entries, the first
  does not hold \<open>m_valBegin\<close> and the last does. \<open>well_formed\<close>: moreover the map passes
  \<open>is_canonical\<close>.
\<close>

definition bounded :: "('k::linorder, 'v) interval_map \<Rightarrow> bool" where
  "bounded m \<longleftrightarrow> sorted_keys (m_map m)
     \<and> (m_map m = [] \<or> (snd (hd (m_map m)) \<noteq> m_valBegin m
                          \<and> snd (last (m_map m)) = m_valBegin m))"

definition well_formed :: "('k::linorder, 'v) interval_map \<Rightarrow> bool" where
  "well_formed m \<longleftrightarrow> sorted_keys (m_map m) \<and> is_canonical m
     \<and> (m_map m = [] \<or> snd (last (m_map m)) = m_valBegin m)"

section \<open>Lookup\<close>

lemma takeWhile_le_filter:
  "sorted_keys xs \<Longrightarrow>
     takeWhile (\<lambda>e. \<not> key < fst e) xs = filter (\<lambda>e. \<not> key < fst e) xs"
  unfolding sorted_keys_def
  by (induction xs) (auto intro!: filter_False[symmetric] simp del: filter_False)

lemma sorted_keys_last_max:
  "sorted_keys xs \<Longrightarrow> e \<in> set xs \<Longrightarrow> fst e \<le> fst (last xs)"
  unfolding sorted_keys_def
  by (induction xs) (auto simp: less_imp_le)

lemma sorted_keys_filter: "sorted_keys xs \<Longrightarrow> sorted_keys (filter P xs)"
  unfolding sorted_keys_def
  by (induction xs) auto

text \<open>
  C4. On every map (its keys strictly increasing, as in any \<open>std::map\<close>) and for every
  key, \<open>operator[]\<close> returns the value of the greatest stored key that is at most \<open>key\<close>,
  and \<open>m_valBegin\<close> when no stored key is at most \<open>key\<close>, which includes the empty map.
  The member function is \<open>const\<close>: \<open>value_at\<close> takes the map and returns a value only,
  so there is no map after the call other than the one before it.
\<close>

theorem value_at_greatest_boundary:
  assumes "sorted_keys (m_map m)"
  shows "(if \<exists>e \<in> set (m_map m). fst e \<le> key
          then \<exists>e \<in> set (m_map m). fst e \<le> key
                 \<and> (\<forall>e' \<in> set (m_map m). fst e' \<le> key \<longrightarrow> fst e' \<le> fst e)
                 \<and> value_at m key = snd e
          else value_at m key = m_valBegin m)"
proof -
  let ?P = "\<lambda>e::'a \<times> 'b. \<not> key < fst e"
  let ?upto = "filter ?P (m_map m)"
  have upto: "takeWhile ?P (m_map m) = ?upto"
    using assms by (rule takeWhile_le_filter)
  show ?thesis
  proof (cases "\<exists>e \<in> set (m_map m). fst e \<le> key")
    case False
    then have "?upto = []" by (auto simp: filter_empty_conv)
    with False upto show ?thesis by (simp add: value_at_def)
  next
    case True
    then have ne: "?upto \<noteq> []" by (force simp: filter_empty_conv not_less)
    then have mem: "last ?upto \<in> set ?upto" by (rule last_in_set)
    have srt: "sorted_keys ?upto" using assms by (rule sorted_keys_filter)
    have mx: "\<forall>e' \<in> set (m_map m). fst e' \<le> key \<longrightarrow> fst e' \<le> fst (last ?upto)"
      using sorted_keys_last_max[OF srt] by auto
    have val: "value_at m key = snd (last ?upto)"
      using ne upto by (simp add: value_at_def)
    from mem have "last ?upto \<in> set (m_map m)" "fst (last ?upto) \<le> key" by auto
    with mx val True show ?thesis by auto
  qed
qed

theorem value_at_greatest_boundary_witness:
  "sorted_keys [(1::int, CHR ''B''), (3, CHR ''A'')]
   \<and> value_at \<lparr>m_valBegin = CHR ''A'', m_map = [(1::int, CHR ''B''), (3, CHR ''A'')]\<rparr> 2
       = CHR ''B''
   \<and> value_at \<lparr>m_valBegin = CHR ''A'', m_map = [(1::int, CHR ''B''), (3, CHR ''A'')]\<rparr> 0
       = CHR ''A''"
  using
    value_at_greatest_boundary
      [of "\<lparr>m_valBegin = CHR ''A'', m_map = [(1::int, CHR ''B''), (3, CHR ''A'')]\<rparr>" 2]
    value_at_greatest_boundary
      [of "\<lparr>m_valBegin = CHR ''A'', m_map = [(1::int, CHR ''B''), (3, CHR ''A'')]\<rparr>" 0]
  by (simp add: sorted_keys_def)

section \<open>The first two phases of \<open>assign\<close>\<close>

text \<open>
  C5. When \<open>keyBegin < keyEnd\<close> does not hold, \<open>assign\<close> returns normally and the map
  after the call is the map before it: the same \<open>m_valBegin\<close> and the same entries, hence
  the same value at every key and the same size.
\<close>

theorem assign_degenerate_noop:
  assumes "\<not> keyBegin < keyEnd"
  shows "assign m keyBegin keyEnd val = Inr m"
  using assms by (simp add: assign_def assign_with_def)

theorem assign_degenerate_noop_witness:
  "\<not> (10::int) < 5
   \<and> assign \<lparr>m_valBegin = CHR ''A'', m_map = [(1::int, CHR ''B''), (3, CHR ''A'')]\<rparr>
        10 5 (CHR ''B'')
       = Inr \<lparr>m_valBegin = CHR ''A'', m_map = [(1, CHR ''B''), (3, CHR ''A'')]\<rparr>"
  using assign_degenerate_noop
    [of 10 5 "\<lparr>m_valBegin = CHR ''A'', m_map = [(1::int, CHR ''B''), (3, CHR ''A'')]\<rparr>"
        "CHR ''B''"]
  by simp

text \<open>
  C8. On a map without entries and with \<open>keyBegin < keyEnd\<close>, \<open>assign\<close> leaves the map as
  it is when \<open>val\<close> equals \<open>m_valBegin\<close>; otherwise the entries afterwards are exactly
  \<open>(keyBegin, val)\<close> and \<open>(keyEnd, m_valBegin)\<close>, two of them.
\<close>

theorem assign_trivial_map:
  assumes "keyBegin < keyEnd" and "m_map m = []"
  shows "assign m keyBegin keyEnd val =
           Inr (if val = m_valBegin m then m
                else m\<lparr>m_map := [(keyBegin, val), (keyEnd, m_valBegin m)]\<rparr>)"
  using assms by (simp add: assign_def assign_with_def)

theorem assign_trivial_map_witness:
  "(1::int) < 3 \<and> m_map (new_map (CHR ''A'') :: (int, char) interval_map) = []
   \<and> assign (new_map (CHR ''A'')) (1::int) 3 (CHR ''B'')
       = Inr \<lparr>m_valBegin = CHR ''A'', m_map = [(1, CHR ''B''), (3, CHR ''A'')]\<rparr>
   \<and> size_of \<lparr>m_valBegin = CHR ''A'', m_map = [(1::int, CHR ''B''), (3, CHR ''A'')]\<rparr> = 2"
  using assign_trivial_map [of 1 3 "new_map (CHR ''A'') :: (int, char) interval_map" "CHR ''B''"]
  by (simp add: new_map_def size_of_def)

section \<open>Entry lists with increasing keys\<close>

lemma sorted_keys_append:
  "sorted_keys (xs @ ys) \<longleftrightarrow>
     sorted_keys xs \<and> sorted_keys ys \<and> (\<forall>x \<in> set xs. \<forall>y \<in> set ys. fst x < fst y)"
  by (auto simp: sorted_keys_def sorted_wrt_append)

lemma sorted_keys_Cons:
  "sorted_keys (x # xs) \<longleftrightarrow> sorted_keys xs \<and> (\<forall>y \<in> set xs. fst x < fst y)"
  by (auto simp: sorted_keys_def)

lemma insert_or_assign_append:
  "\<forall>e \<in> set A. fst e < k \<Longrightarrow> insert_or_assign k v (A @ B) = A @ insert_or_assign k v B"
  by (induction A) auto

lemma insert_or_assign_front:
  "\<forall>e \<in> set B. k < fst e \<Longrightarrow> insert_or_assign k v B = (k, v) # B"
  by (cases B) auto

lemma erase_all_Inr:
  "erase_all ks xs = Inr ys \<Longrightarrow> ys = filter (\<lambda>e. fst e \<notin> set ks) xs"
proof (induction ks arbitrary: xs)
  case Nil
  then show ?case by simp
next
  case (Cons k ks)
  then have "erase_all ks (erase k xs) = Inr ys"
    by (simp split: if_splits)
  then have "ys = filter (\<lambda>e. fst e \<notin> set ks) (erase k xs)"
    by (rule Cons.IH)
  then show ?case by (auto simp: erase_def intro: filter_cong)
qed

lemma erase_all_distinct:
  "distinct ks \<Longrightarrow> set ks \<subseteq> fst ` set xs \<Longrightarrow>
     erase_all ks xs = Inr (filter (\<lambda>e. fst e \<notin> set ks) xs)"
proof (induction ks arbitrary: xs)
  case Nil
  then show ?case by simp
next
  case (Cons k ks)
  have k: "k \<in> fst ` set xs" using Cons.prems(2) by simp
  have "set ks \<subseteq> fst ` set (erase k xs)"
  proof
    fix k' assume k': "k' \<in> set ks"
    with Cons.prems(1) have "k' \<noteq> k" by auto
    moreover from k' Cons.prems(2) obtain e where "e \<in> set xs" "fst e = k'" by auto
    ultimately show "k' \<in> fst ` set (erase k xs)" by (force simp: erase_def)
  qed
  moreover have "distinct ks" using Cons.prems(1) by simp
  ultimately have "erase_all ks (erase k xs)
      = Inr (filter (\<lambda>e. fst e \<notin> set ks) (erase k xs))"
    by (intro Cons.IH)
  moreover have "filter (\<lambda>e. fst e \<notin> set ks) (erase k xs)
      = filter (\<lambda>e. fst e \<notin> set (k # ks)) xs"
    by (auto simp: erase_def intro: filter_cong)
  ultimately show ?case using k by simp
qed

lemma scan_Cons_kept:
  assumes "keyBegin < keyEnd" and "rest = [] \<or> snd (hd rest) \<noteq> val"
  shows "scan keyBegin keyEnd val ((keyBegin, val) # rest) (r, wd) =
           scan keyBegin keyEnd val rest (r, wd)"
  using assms by (cases rest) (auto simp: Let_def)

lemma scan_Cons_marked:
  assumes "\<not> k < keyBegin" and "k < keyEnd" and "(k, v) \<noteq> (keyBegin, val)"
  shows "scan keyBegin keyEnd val ((k, v) # rest) (r, wd) =
           scan keyBegin keyEnd val rest
             (if v \<noteq> val \<and> rest \<noteq> [] \<and> keyEnd < fst (hd rest) then Some (keyEnd, v) else r,
              wd @ [k])"
  using assms by (cases rest) (auto simp: Let_def)

lemma scan_Cons_stop:
  assumes "\<not> k < keyEnd" and "keyBegin < keyEnd"
  shows "scan keyBegin keyEnd val ((k, v) # rest) (r, wd) =
           (r, if (k, v) = (keyEnd, val) then wd @ [k] else wd)"
  using assms by (cases rest) (auto simp: Let_def)

declare scan.simps(2) [simp del]

lemma scan_middle:
  assumes "\<forall>e \<in> set R. \<not> fst e < keyBegin \<and> fst e < keyEnd"
    and "T = [] \<or> \<not> fst (hd T) < keyEnd"
    and "distinct_adj (map snd (R @ T))"
    and "keyBegin < keyEnd"
  shows "scan keyBegin keyEnd val (R @ T) (r0, wd0) =
     (if R \<noteq> [] \<and> snd (last R) \<noteq> val \<and> T \<noteq> [] \<and> keyEnd < fst (hd T)
      then Some (keyEnd, snd (last R)) else r0,
      wd0 @ map fst (filter (\<lambda>e. e \<noteq> (keyBegin, val)) R)
          @ (if T \<noteq> [] \<and> hd T = (keyEnd, val) then [keyEnd] else []))"
  using assms
proof (induction R arbitrary: r0 wd0)
  case Nil
  show ?case
  proof (cases T)
    case Nil
    then show ?thesis by simp
  next
    case (Cons t T')
    obtain k v where t: "t = (k, v)" by (cases t)
    from Nil.prems Cons t have "\<not> k < keyEnd" by simp
    then show ?thesis
      using Cons t Nil.prems(4) by (simp add: scan_Cons_stop)
  qed
next
  case (Cons e R)
  obtain k v where e: "e = (k, v)" by (cases e)
  from Cons.prems e have k: "\<not> k < keyBegin" "k < keyEnd" by auto
  have IH: "scan keyBegin keyEnd val (R @ T) (r, wd) =
     (if R \<noteq> [] \<and> snd (last R) \<noteq> val \<and> T \<noteq> [] \<and> keyEnd < fst (hd T)
      then Some (keyEnd, snd (last R)) else r,
      wd @ map fst (filter (\<lambda>e. e \<noteq> (keyBegin, val)) R)
          @ (if T \<noteq> [] \<and> hd T = (keyEnd, val) then [keyEnd] else []))" for r wd
    using Cons.prems by (intro Cons.IH) (auto simp: distinct_adj_Cons)
  show ?case
  proof (cases "(k, v) = (keyBegin, val)")
    case True
    have "R @ T = [] \<or> snd (hd (R @ T)) \<noteq> val"
      using Cons.prems(3) e True by (cases "R @ T") (auto simp: distinct_adj_Cons)
    then have "scan keyBegin keyEnd val ((e # R) @ T) (r0, wd0) =
        scan keyBegin keyEnd val (R @ T) (r0, wd0)"
      using e True Cons.prems(4) by (simp add: scan_Cons_kept)
    also note IH
    finally show ?thesis
      using e True by (cases "R = []") auto
  next
    case False
    have hdR: "R \<noteq> [] \<Longrightarrow> \<not> keyEnd < fst (hd R)"
      using Cons.prems(1) by (cases R) (auto simp: not_less less_imp_le)
    have "scan keyBegin keyEnd val ((e # R) @ T) (r0, wd0) =
        scan keyBegin keyEnd val (R @ T)
          (if v \<noteq> val \<and> R @ T \<noteq> [] \<and> keyEnd < fst (hd (R @ T)) then Some (keyEnd, v) else r0,
           wd0 @ [k])"
      using e False k by (simp add: scan_Cons_marked)
    also have "\<dots> =
       (if R \<noteq> [] \<and> snd (last R) \<noteq> val \<and> T \<noteq> [] \<and> keyEnd < fst (hd T)
        then Some (keyEnd, snd (last R))
        else if v \<noteq> val \<and> R @ T \<noteq> [] \<and> keyEnd < fst (hd (R @ T)) then Some (keyEnd, v) else r0,
        (wd0 @ [k]) @ map fst (filter (\<lambda>e. e \<noteq> (keyBegin, val)) R)
          @ (if T \<noteq> [] \<and> hd T = (keyEnd, val) then [keyEnd] else []))"
      by (rule IH)
    finally show ?thesis
      using e False hdR by (cases "R = []") auto
  qed
qed


lemma sorted_keys_dropWhile_ge:
  "sorted_keys xs \<Longrightarrow> e \<in> set (dropWhile (\<lambda>e. fst e < k) xs) \<Longrightarrow> \<not> fst e < k"
  unfolding sorted_keys_def
proof (induction xs)
  case Nil
  then show ?case by simp
next
  case (Cons x xs)
  show ?case
  proof (cases "fst x < k")
    case True
    with Cons show ?thesis by simp
  next
    case False
    with Cons.prems have "e = x \<or> (e \<in> set xs \<and> fst x < fst e)" by auto
    with False show ?thesis by auto
  qed
qed

lemma sorted_keys_distinct: "sorted_keys xs \<Longrightarrow> distinct (map fst xs)"
  unfolding sorted_keys_def by (simp add: strict_sorted_iff)

lemma sorted_keys_unique:
  "sorted_keys xs \<Longrightarrow> (k, v) \<in> set xs \<Longrightarrow> (k, w) \<in> set xs \<Longrightarrow> v = w"
  using eq_key_imp_eq_value[of xs k v w] sorted_keys_distinct[of xs] by simp

lemma split_at_keys:
  assumes "sorted_keys m"
  obtains P R T where "m = P @ R @ T" and "lower_bound keyBegin m = R @ T"
    and "\<forall>e \<in> set P. fst e < keyBegin"
    and "\<forall>e \<in> set R. \<not> fst e < keyBegin \<and> fst e < keyEnd"
    and "\<forall>e \<in> set T. \<not> fst e < keyEnd"
proof -
  define P where "P = takeWhile (\<lambda>e. fst e < keyBegin) m"
  define Q where "Q = dropWhile (\<lambda>e. fst e < keyBegin) m"
  define R where "R = takeWhile (\<lambda>e. fst e < keyEnd) Q"
  define T where "T = dropWhile (\<lambda>e. fst e < keyEnd) Q"
  have mPQ: "m = P @ Q" by (simp add: P_def Q_def)
  have QRT: "Q = R @ T" by (simp add: R_def T_def)
  have sQ: "sorted_keys Q"
    using assms unfolding mPQ sorted_keys_append by simp
  have 1: "m = P @ R @ T" using mPQ QRT by simp
  have 2: "lower_bound keyBegin m = R @ T"
    using QRT by (simp add: lower_bound_def Q_def)
  have 3: "\<forall>e \<in> set P. fst e < keyBegin"
    unfolding P_def by (meson set_takeWhileD)
  have Qge: "\<forall>e \<in> set Q. \<not> fst e < keyBegin"
    unfolding Q_def using sorted_keys_dropWhile_ge[OF assms] by blast
  have "\<forall>e \<in> set R. fst e < keyEnd"
    unfolding R_def by (meson set_takeWhileD)
  moreover have "set R \<subseteq> set Q" unfolding QRT by simp
  ultimately have 4: "\<forall>e \<in> set R. \<not> fst e < keyBegin \<and> fst e < keyEnd"
    using Qge by blast
  have 5: "\<forall>e \<in> set T. \<not> fst e < keyEnd"
    unfolding T_def using sorted_keys_dropWhile_ge[OF sQ] by blast
  from 1 2 3 4 5 show thesis by (rule that)
qed

lemma filter_marked:
  fixes keyBegin keyEnd :: "'k::linorder"
  assumes srt: "sorted_keys (P @ R @ T)"
    and lt: "keyBegin < keyEnd"
    and P: "\<forall>e \<in> set P. fst e < keyBegin"
    and R: "\<forall>e \<in> set R. \<not> fst e < keyBegin \<and> fst e < keyEnd"
    and T: "\<forall>e \<in> set T. \<not> fst e < keyEnd"
    and M: "M = [] \<or> (\<exists>x. M = [(keyEnd, x)] \<and> T \<noteq> [] \<and> keyEnd < fst (hd T))"
    and wd: "wd = map fst (filter (\<lambda>e. e \<noteq> (keyBegin, val)) R)
                   @ (if T \<noteq> [] \<and> hd T = (keyEnd, val) then [keyEnd] else [])"
  shows "filter (\<lambda>e. fst e \<notin> set wd) (P @ R @ M @ T) =
           P @ filter (\<lambda>e. e = (keyBegin, val)) R @ M
             @ (if T \<noteq> [] \<and> hd T = (keyEnd, val) then tl T else T)"
proof -
  have sR: "sorted_keys R" and sT: "sorted_keys T"
    using srt by (auto simp: sorted_keys_append)
  have wd_range: "\<not> k < keyBegin \<and> \<not> keyEnd < k" if "k \<in> set wd" for k
  proof -
    from that consider e where "e \<in> set R" "k = fst e" | "k = keyEnd"
      unfolding wd by (auto split: if_splits)
    then show ?thesis
    proof cases
      case 1
      with R show ?thesis by (auto simp: not_less less_imp_le)
    next
      case 2
      with lt show ?thesis by auto
    qed
  qed
  have wd_end: "T \<noteq> [] \<and> hd T = (keyEnd, val)" if "keyEnd \<in> set wd"
  proof -
    have "keyEnd \<notin> fst ` set R" using R by auto
    with that show ?thesis unfolding wd by (auto split: if_splits)
  qed
  have fP: "filter (\<lambda>e. fst e \<notin> set wd) P = P"
    unfolding filter_id_conv using P wd_range by blast
  have fR: "filter (\<lambda>e. fst e \<notin> set wd) R = filter (\<lambda>e. e = (keyBegin, val)) R"
  proof (rule filter_cong[OF refl])
    fix e assume e: "e \<in> set R"
    show "(fst e \<notin> set wd) = (e = (keyBegin, val))"
    proof
      assume "fst e \<notin> set wd"
      then have "fst e \<notin> fst ` set (filter (\<lambda>e. e \<noteq> (keyBegin, val)) R)"
        unfolding wd by simp
      with e show "e = (keyBegin, val)" by auto
    next
      assume ev: "e = (keyBegin, val)"
      show "fst e \<notin> set wd"
      proof
        assume "fst e \<in> set wd"
        then have "keyBegin \<in> set wd" using ev by simp
        then consider e' where "e' \<in> set R" "e' \<noteq> (keyBegin, val)" "fst e' = keyBegin"
          | "keyBegin = keyEnd"
          unfolding wd by (auto split: if_splits)
        then show False
        proof cases
          case 1
          then have "(keyBegin, snd e') \<in> set R" by (metis prod.collapse)
          with sorted_keys_unique[OF sR, of keyBegin val "snd e'"] e ev
          have "snd e' = val" by simp
          with 1 show False by (metis prod.collapse)
        next
          case 2
          with lt show False by simp
        qed
      qed
    qed
  qed
  have fM: "filter (\<lambda>e. fst e \<notin> set wd) M = M"
  proof (cases "M = []")
    case True
    then show ?thesis by simp
  next
    case False
    with M obtain x where x: "M = [(keyEnd, x)]" "T \<noteq> []" "keyEnd < fst (hd T)" by auto
    then have "keyEnd \<notin> set wd" using wd_end by auto
    with x show ?thesis by simp
  qed
  have fT: "filter (\<lambda>e. fst e \<notin> set wd) T =
              (if T \<noteq> [] \<and> hd T = (keyEnd, val) then tl T else T)"
  proof (cases T)
    case Nil
    then show ?thesis by simp
  next
    case (Cons t T')
    have gt: "\<forall>e \<in> set T'. fst t < fst e"
      using sT Cons by (simp add: sorted_keys_Cons)
    have ge: "\<not> fst t < keyEnd" using T Cons by simp
    have "\<forall>e \<in> set T'. keyEnd < fst e" using gt ge by auto
    then have "\<forall>e \<in> set T'. fst e \<notin> set wd" using wd_range by blast
    then have 1: "filter (\<lambda>e. fst e \<notin> set wd) T' = T'"
      unfolding filter_id_conv .
    have 2: "fst t \<in> set wd \<longleftrightarrow> t = (keyEnd, val)"
    proof
      assume a: "fst t \<in> set wd"
      with wd_range ge have "fst t = keyEnd" by force
      with a wd_end Cons show "t = (keyEnd, val)" by simp
    next
      assume "t = (keyEnd, val)"
      then show "fst t \<in> set wd" unfolding wd using Cons by simp
    qed
    show ?thesis using Cons 1 2 by auto
  qed
  show ?thesis by (simp add: fP fR fM fT)
qed

section \<open>The insertion step and the two canonization steps\<close>

lemma next_of_append:
  "\<forall>e \<in> set P. fst e \<noteq> k \<Longrightarrow> next_of k (P @ (k, v) # U) = U"
  by (simp add: next_of_def dropWhile_append2)

lemma before_append:
  "\<forall>e \<in> set P. fst e \<noteq> k \<Longrightarrow> before k (P @ (k, v) # U) = P"
  by (simp add: before_def takeWhile_append2)

lemma erase_append:
  "\<forall>e \<in> set P. fst e \<noteq> k \<Longrightarrow> \<forall>e \<in> set U. fst e \<noteq> k \<Longrightarrow>
     erase k (P @ (k, v) # U) = P @ U"
  by (simp add: erase_def filter_id_conv)

lemma insert_new_struct:
  fixes keyBegin :: "'k::linorder" and val :: "'v"
  assumes P: "\<forall>e \<in> set P. fst e < keyBegin"
    and K: "K = [] \<or> (\<exists>w. K = [(keyBegin, w)])"
    and U: "\<forall>e \<in> set U. keyBegin < fst e"
    and sU: "sorted_keys U"
  shows "insert_new keyBegin val val_now past_end (P @ K @ U) =
           (case U of
              [] \<Rightarrow>
                (case past_end of
                   None \<Rightarrow> Inl EndDereferenced
                 | Some g \<Rightarrow>
                     if g = val_now then Inl EndErased
                     else Inr (P @ (if P \<noteq> [] \<and> snd (last P) = val_now then []
                                    else [(keyBegin, val)])))
            | (ka, va) # U' \<Rightarrow>
                Inr (P @ (if P \<noteq> [] \<and> snd (last P) = val_now then [] else [(keyBegin, val)])
                       @ (if va = val_now then U' else U)))"
proof -
  define B where "B = (if P \<noteq> [] \<and> snd (last P) = val_now then [] else [(keyBegin, val)])"
  define tail_step :: "('k \<times> 'v) list \<Rightarrow> error + ('k \<times> 'v) list" where
    "tail_step = (\<lambda>xs2. if before keyBegin xs2 \<noteq> [] then
                      (if snd (last (before keyBegin xs2)) = val_now
                       then Inr (erase keyBegin xs2) else Inr xs2)
                    else Inr xs2)"
  have "insert_or_assign keyBegin val (K @ U) = (keyBegin, val) # U"
    using K U by (auto simp: insert_or_assign_front)
  then have ins: "insert_or_assign keyBegin val (P @ K @ U) = P @ (keyBegin, val) # U"
    using P by (simp add: insert_or_assign_append)
  have Pne: "\<forall>e \<in> set P. fst e \<noteq> keyBegin" using P by auto
  have nxt: "next_of keyBegin (P @ (keyBegin, val) # U) = U"
    using Pne by (rule next_of_append)
  have unf: "insert_new keyBegin val val_now past_end (P @ K @ U) =
      (case (case U of
              [] \<Rightarrow>
                (case past_end of
                   None \<Rightarrow> Inl EndDereferenced
                 | Some g \<Rightarrow> if g = val_now then Inl EndErased
                             else Inr (P @ (keyBegin, val) # U))
            | (ka, va) # _ \<Rightarrow> Inr (if va = val_now then erase ka (P @ (keyBegin, val) # U)
                                    else P @ (keyBegin, val) # U)) of
        Inl e \<Rightarrow> Inl e
      | Inr xs2 \<Rightarrow> tail_step xs2)"
    unfolding insert_new_def Let_def ins nxt tail_step_def ..
  have tail_step: "tail_step (P @ (keyBegin, val) # W) = Inr (P @ B @ W)"
    if W: "\<forall>e \<in> set W. keyBegin < fst e" for W
  proof -
    have bef: "before keyBegin (P @ (keyBegin, val) # W) = P"
      using Pne by (rule before_append)
    have "\<forall>e \<in> set W. fst e \<noteq> keyBegin" using W by auto
    with Pne have er: "erase keyBegin (P @ (keyBegin, val) # W) = P @ W"
      by (rule erase_append)
    show ?thesis unfolding tail_step_def bef er B_def by simp
  qed
  show ?thesis
  proof (cases U)
    case Nil
    have "tail_step (P @ [(keyBegin, val)]) = Inr (P @ B)"
      using tail_step[of "[]"] by simp
    then show ?thesis
      unfolding unf B_def[symmetric] using Nil by (cases past_end) simp_all
  next
    case (Cons u U')
    obtain ka va where u: "u = (ka, va)" by (cases u)
    have ka: "keyBegin < ka" using U Cons u by simp
    have U': "\<forall>e \<in> set U'. ka < fst e"
      using sU Cons u by (simp add: sorted_keys_Cons)
    define U'' where "U'' = (if va = val_now then U' else U)"
    have U''gt: "\<forall>e \<in> set U''. keyBegin < fst e"
      using U Cons by (auto simp: U''_def)
    have "\<forall>e \<in> set (P @ [(keyBegin, val)]). fst e \<noteq> ka"
      using P ka by auto
    moreover have "\<forall>e \<in> set U'. fst e \<noteq> ka" using U' by auto
    ultimately have "erase ka ((P @ [(keyBegin, val)]) @ (ka, va) # U')
        = (P @ [(keyBegin, val)]) @ U'"
      by (rule erase_append)
    then have "erase ka (P @ (keyBegin, val) # (ka, va) # U') = P @ (keyBegin, val) # U'"
      by simp
    then have xs2: "(if va = val_now then erase ka (P @ (keyBegin, val) # U)
                     else P @ (keyBegin, val) # U) = P @ (keyBegin, val) # U''"
      using Cons u by (cases "va = val_now") (simp_all add: U''_def)
    have "insert_new keyBegin val val_now past_end (P @ K @ U) = tail_step (P @ (keyBegin, val) # U'')"
      unfolding unf using Cons u xs2 by simp
    also have "\<dots> = Inr (P @ B @ U'')" using U''gt by (rule tail_step)
    finally show ?thesis
      unfolding B_def U''_def using Cons u by simp
  qed
qed

lemma differs_from_prev_distinct_adj:
  "differs_from_prev p xs \<longleftrightarrow> distinct_adj (p # map snd xs)"
  by (induction p xs rule: differs_from_prev.induct) (auto simp: distinct_adj_Cons)

lemma is_canonical_distinct_adj:
  "is_canonical m \<longleftrightarrow> distinct_adj (m_valBegin m # map snd (m_map m))"
  by (auto simp: is_canonical_def differs_from_prev_distinct_adj distinct_adj_Cons
      split: list.splits)

lemma canonize_front_suffix: "\<exists>A. xs = A @ canonize_front d xs"
proof (induction xs)
  case Nil
  then show ?case by simp
next
  case (Cons x xs)
  then obtain A where A: "xs = A @ canonize_front d xs" by blast
  obtain k v where x: "x = (k, v)" by (cases x)
  show ?case
  proof (cases "v = d")
    case True
    have "x # xs = (x # A) @ canonize_front d xs" using A by simp
    moreover have "canonize_front d (x # xs) = canonize_front d xs"
      using x True by simp
    ultimately show ?thesis by metis
  next
    case False
    then have "x # xs = [] @ canonize_front d (x # xs)" using x by simp
    then show ?thesis by blast
  qed
qed

lemma canonize_front_hd:
  "canonize_front d xs \<noteq> [] \<Longrightarrow> snd (hd (canonize_front d xs)) \<noteq> d"
  by (induction xs) (auto split: if_splits)

lemma canonize_back_cases:
  "canonize_back d xs = [] \<or> canonize_back d xs = xs
   \<or> (canonize_back d xs = butlast xs \<and> 2 < length xs)"
proof -
  have "butlast xs = []" if "\<not> 1 < length xs"
    using that by (cases xs) auto
  then show ?thesis by (auto simp: canonize_back_def)
qed

lemma canonize_back_prefix: "\<exists>B. xs = canonize_back d xs @ B"
  using canonize_back_cases[of d xs]
  by (metis append_Nil append_Nil2 append_butlast_last_id butlast.simps(1))

lemma canonize_back_hd:
  assumes "canonize_back d xs \<noteq> []"
  shows "hd (canonize_back d xs) = hd xs"
proof -
  have "hd (butlast xs) = hd xs" if "2 < length xs"
    using that by (cases xs) auto
  then show ?thesis using canonize_back_cases[of d xs] assms by auto
qed

section \<open>The general phase on a canonical map\<close>

lemma filter_eq_singleton:
  "distinct xs \<Longrightarrow> filter (\<lambda>e. e = a) xs = (if a \<in> set xs then [a] else [])"
  by (induction xs) (auto simp: filter_empty_conv)

lemma distinct_adj_map_append:
  "distinct_adj (map f (xs @ ys)) \<longleftrightarrow>
     distinct_adj (map f xs) \<and> distinct_adj (map f ys)
     \<and> (xs = [] \<or> ys = [] \<or> f (last xs) \<noteq> f (hd ys))"
  by (auto simp: distinct_adj_append_iff last_map hd_map)

lemma distinct_adj_map_tl: "distinct_adj (map f xs) \<Longrightarrow> distinct_adj (map f (tl xs))"
  by (cases xs) (auto simp: distinct_adj_Cons)

lemma sorted_keys_Nil: "sorted_keys []"
  by (simp add: sorted_keys_def)

lemma sorted_keys_tl: "sorted_keys xs \<Longrightarrow> sorted_keys (tl xs)"
  by (cases xs) (auto simp: sorted_keys_Cons)

lemma general_phase_cleared:
  fixes keyBegin keyEnd :: "'k::linorder"
  assumes srt: "sorted_keys xs"
    and adj: "distinct_adj (map snd xs)"
    and lt: "keyBegin < keyEnd"
    and sc: "scan keyBegin keyEnd val (lower_bound keyBegin xs) (None, []) = (rz, wd)"
  obtains P K U where
      "erase_all wd (case rz of None \<Rightarrow> xs | Some (k, v) \<Rightarrow> insert_or_assign k v xs)
         = Inr (P @ K @ U)"
    and "\<forall>e \<in> set P. fst e < keyBegin" and "sorted_keys P"
    and "distinct_adj (map snd P)" and "set P \<subseteq> set xs"
    and "K = [] \<or> (\<exists>w. K = [(keyBegin, w)])"
    and "\<forall>e \<in> set U. keyBegin < fst e" and "sorted_keys U"
    and "distinct_adj (map snd U)"
    and "\<forall>e \<in> set U. e \<in> set xs \<or> (fst e = keyEnd \<and> (\<exists>e' \<in> set xs. keyEnd < fst e'))"
    and "(\<forall>e \<in> set xs. fst e < keyEnd \<or> e = (keyEnd, val)) \<longrightarrow> U = []"
proof -
  obtain P R T where xs: "xs = P @ R @ T" and lb: "lower_bound keyBegin xs = R @ T"
    and P: "\<forall>e \<in> set P. fst e < keyBegin"
    and R: "\<forall>e \<in> set R. \<not> fst e < keyBegin \<and> fst e < keyEnd"
    and T: "\<forall>e \<in> set T. \<not> fst e < keyEnd"
    using split_at_keys[OF srt, of keyBegin keyEnd] by blast
  have sP: "sorted_keys P" and sR: "sorted_keys R" and sT: "sorted_keys T"
    using srt unfolding xs by (auto simp: sorted_keys_append)
  have aP: "distinct_adj (map snd P)" and aRT: "distinct_adj (map snd (R @ T))"
    using adj[unfolded xs] unfolding distinct_adj_map_append[of snd P] by blast+
  have aT: "distinct_adj (map snd T)"
    using aRT unfolding distinct_adj_map_append by blast
  define c where "c \<longleftrightarrow> R \<noteq> [] \<and> snd (last R) \<noteq> val \<and> T \<noteq> [] \<and> keyEnd < fst (hd T)"
  define M where "M = (if c then [(keyEnd, snd (last R))] else [])"
  define wd' where "wd' = map fst (filter (\<lambda>e. e \<noteq> (keyBegin, val)) R)
                   @ (if T \<noteq> [] \<and> hd T = (keyEnd, val) then [keyEnd] else [])"
  define T' where "T' = (if T \<noteq> [] \<and> hd T = (keyEnd, val) then tl T else T)"
  define K where "K = filter (\<lambda>e. e = (keyBegin, val)) R"
  have hdT: "T = [] \<or> \<not> fst (hd T) < keyEnd" using T by (cases T) auto
  have "scan keyBegin keyEnd val (R @ T) (None, []) =
          (if c then Some (keyEnd, snd (last R)) else None, [] @ wd')"
    unfolding c_def wd'_def using R hdT aRT lt by (rule scan_middle)
  with sc lb have rz: "rz = (if c then Some (keyEnd, snd (last R)) else None)"
    and wd: "wd = wd'" by simp_all
  have Tgt: "\<forall>e \<in> set T. keyEnd < fst e" if c
  proof -
    from that have "T \<noteq> []" "keyEnd < fst (hd T)" by (auto simp: c_def)
    then show ?thesis using sT by (cases T) (auto simp: sorted_keys_Cons)
  qed
  have xs1: "(case rz of None \<Rightarrow> xs | Some (k, v) \<Rightarrow> insert_or_assign k v xs) = P @ R @ M @ T"
  proof (cases c)
    case True
    have "insert_or_assign keyEnd (snd (last R)) ((P @ R) @ T)
            = (P @ R) @ insert_or_assign keyEnd (snd (last R)) T"
      using P R lt by (intro insert_or_assign_append) auto
    also have "insert_or_assign keyEnd (snd (last R)) T = (keyEnd, snd (last R)) # T"
      using Tgt[OF True] by (rule insert_or_assign_front)
    finally show ?thesis using True by (simp add: rz M_def xs)
  next
    case False
    then show ?thesis by (simp add: rz M_def xs)
  qed
  have Mc: "M = [] \<or> (\<exists>x. M = [(keyEnd, x)] \<and> T \<noteq> [] \<and> keyEnd < fst (hd T))"
    by (auto simp: M_def c_def)
  have dR: "distinct (map fst R)" using sR by (rule sorted_keys_distinct)
  have "distinct (map fst (filter (\<lambda>e. e \<noteq> (keyBegin, val)) R))"
    using dR by (rule distinct_map_filter)
  moreover have "keyEnd \<notin> fst ` set R" using R by auto
  ultimately have dwd: "distinct wd" unfolding wd wd'_def by auto
  have "set wd \<subseteq> fst ` set (P @ R @ M @ T)"
  proof
    fix k assume "k \<in> set wd"
    then consider "k \<in> fst ` set R" | "T \<noteq> []" "hd T = (keyEnd, val)" "k = keyEnd"
      unfolding wd wd'_def by (auto split: if_splits)
    then show "k \<in> fst ` set (P @ R @ M @ T)"
    proof cases
      case 1
      then show ?thesis by auto
    next
      case 2
      then have "(keyEnd, val) \<in> set T" by (metis list.set_sel(1))
      then show ?thesis using 2 by force
    qed
  qed
  with dwd have "erase_all wd (P @ R @ M @ T)
      = Inr (filter (\<lambda>e. fst e \<notin> set wd) (P @ R @ M @ T))"
    by (rule erase_all_distinct)
  also have "filter (\<lambda>e. fst e \<notin> set wd) (P @ R @ M @ T) = P @ K @ M @ T'"
    unfolding K_def T'_def
    using srt[unfolded xs] lt P R T Mc wd[unfolded wd'_def] by (rule filter_marked)
  finally have xs2: "erase_all wd (case rz of None \<Rightarrow> xs
        | Some (k, v) \<Rightarrow> insert_or_assign k v xs) = Inr (P @ K @ (M @ T'))"
    unfolding xs1 by simp
  have Kc: "K = [] \<or> (\<exists>w. K = [(keyBegin, w)])"
    unfolding K_def using filter_eq_singleton[of R "(keyBegin, val)"]
      sorted_keys_distinct[OF sR] by (auto simp: distinct_map)
  have T'sub: "set T' \<subseteq> set T"
    unfolding T'_def by (cases T) auto
  have sT': "sorted_keys T'" unfolding T'_def using sT by (simp add: sorted_keys_tl)
  have aT': "distinct_adj (map snd T')"
    unfolding T'_def using aT by (simp add: distinct_adj_map_tl)
  define U where "U = M @ T'"
  have Ugt: "\<forall>e \<in> set U. keyBegin < fst e"
    unfolding U_def using T T'sub lt by (fastforce simp: M_def)
  have cT': "T' = T" if c
    using that by (auto simp: T'_def c_def)
  have sU: "sorted_keys U"
  proof (cases c)
    case True
    then show ?thesis
      using Tgt[OF True] sT by (simp add: U_def M_def cT' sorted_keys_Cons)
  next
    case False
    then show ?thesis using sT' by (simp add: U_def M_def)
  qed
  have aU: "distinct_adj (map snd U)"
  proof (cases c)
    case True
    then have "snd (last R) \<noteq> snd (hd T)" "T \<noteq> []"
      using aRT[unfolded distinct_adj_map_append] by (auto simp: c_def)
    then show ?thesis
      using True aT by (cases T) (auto simp: U_def M_def cT' distinct_adj_Cons)
  next
    case False
    then show ?thesis using aT' by (simp add: U_def M_def)
  qed
  have Usub: "\<forall>e \<in> set U. e \<in> set xs \<or> (fst e = keyEnd \<and> (\<exists>e' \<in> set xs. keyEnd < fst e'))"
  proof
    fix e assume "e \<in> set U"
    then consider "e \<in> set T'" | "c" "e = (keyEnd, snd (last R))"
      by (auto simp: U_def M_def split: if_splits)
    then show "e \<in> set xs \<or> (fst e = keyEnd \<and> (\<exists>e' \<in> set xs. keyEnd < fst e'))"
    proof cases
      case 1
      then show ?thesis using T'sub xs by auto
    next
      case 2
      then have "hd T \<in> set xs" "keyEnd < fst (hd T)" by (auto simp: c_def xs)
      with 2 show ?thesis by auto
    qed
  qed
  have Uempty: "(\<forall>e \<in> set xs. fst e < keyEnd \<or> e = (keyEnd, val)) \<longrightarrow> U = []"
  proof
    assume all: "\<forall>e \<in> set xs. fst e < keyEnd \<or> e = (keyEnd, val)"
    then have Tall: "\<forall>e \<in> set T. e = (keyEnd, val)" using T xs by auto
    have "T' = []"
    proof (cases T)
      case Nil
      then show ?thesis by (simp add: T'_def)
    next
      case (Cons t T0)
      with Tall have t: "t = (keyEnd, val)" by simp
      have "\<forall>e \<in> set T0. fst t < fst e" using sT Cons by (simp add: sorted_keys_Cons)
      with Tall Cons t have "T0 = []" by (cases T0) auto
      with Cons t show ?thesis by (simp add: T'_def)
    qed
    moreover have "\<not> c"
    proof
      assume c
      then have "T \<noteq> []" "keyEnd < fst (hd T)" by (auto simp: c_def)
      with Tall show False by (cases T) auto
    qed
    ultimately show "U = []" by (simp add: U_def M_def)
  qed
  have Psub: "set P \<subseteq> set xs" by (auto simp: xs)
  show thesis
    using xs2[folded U_def] P sP aP Psub Kc Ugt sU aU Usub Uempty by (rule that)
qed

lemma general_phase_entries:
  fixes keyBegin keyEnd :: "'k::linorder"
  assumes srt: "sorted_keys xs"
    and adj: "distinct_adj (map snd xs)"
    and lt: "keyBegin < keyEnd"
    and sc: "scan keyBegin keyEnd val (lower_bound keyBegin xs) (None, []) = (rz, wd)"
  shows "\<exists>xs2.
       erase_all wd (case rz of None \<Rightarrow> xs | Some (k, v) \<Rightarrow> insert_or_assign k v xs) = Inr xs2
     \<and> (\<forall>xs3. insert_new keyBegin val val past_end xs2 = Inr xs3 \<longrightarrow>
            distinct_adj (map snd xs3) \<and> sorted_keys xs3
          \<and> (\<forall>e \<in> set xs3. e \<in> set xs \<or> e = (keyBegin, val)
                 \<or> (fst e = keyEnd \<and> (\<exists>e' \<in> set xs. keyEnd < fst e'))))
     \<and> (past_end \<noteq> None \<and> past_end \<noteq> Some val \<longrightarrow>
            (\<exists>xs3. insert_new keyBegin val val past_end xs2 = Inr xs3))"
proof -
  from srt adj lt sc obtain P K U where
    er: "erase_all wd (case rz of None \<Rightarrow> xs | Some (k, v) \<Rightarrow> insert_or_assign k v xs)
           = Inr (P @ K @ U)"
    and P: "\<forall>e \<in> set P. fst e < keyBegin" and sP: "sorted_keys P"
    and aP: "distinct_adj (map snd P)" and Psub: "set P \<subseteq> set xs"
    and Kc: "K = [] \<or> (\<exists>w. K = [(keyBegin, w)])"
    and Ugt: "\<forall>e \<in> set U. keyBegin < fst e" and sU: "sorted_keys U"
    and aU: "distinct_adj (map snd U)"
    and Usub: "\<forall>e \<in> set U. e \<in> set xs
                 \<or> (fst e = keyEnd \<and> (\<exists>e' \<in> set xs. keyEnd < fst e'))"
    by (rule general_phase_cleared)
  define B where "B = (if P \<noteq> [] \<and> snd (last P) = val then [] else [(keyBegin, val)])"
  define U'' where
    "U'' = (case U of [] \<Rightarrow> [] | (ka, va) # U' \<Rightarrow> if va = val then U' else U)"
  have struct: "insert_new keyBegin val val past_end (P @ K @ U) =
           (case U of
              [] \<Rightarrow>
                (case past_end of
                   None \<Rightarrow> Inl EndDereferenced
                 | Some g \<Rightarrow>
                     if g = val then Inl EndErased
                     else Inr (P @ (if P \<noteq> [] \<and> snd (last P) = val then []
                                    else [(keyBegin, val)])))
            | (ka, va) # U' \<Rightarrow>
                Inr (P @ (if P \<noteq> [] \<and> snd (last P) = val then [] else [(keyBegin, val)])
                       @ (if va = val then U' else U)))"
    using P Kc Ugt sU by (rule insert_new_struct)
  have res: "xs3 = P @ B @ U''" if "insert_new keyBegin val val past_end (P @ K @ U) = Inr xs3"
    for xs3
    using that unfolding struct B_def U''_def
    by (auto split: list.splits option.splits if_splits)
  have tot: "\<exists>xs3. insert_new keyBegin val val past_end (P @ K @ U) = Inr xs3"
    if "past_end \<noteq> None" "past_end \<noteq> Some val"
    using that unfolding struct by (auto split: list.splits option.splits)
  have U''cases: "U'' = [] \<or> U'' = U \<or> U'' = tl U"
    by (auto simp: U''_def split: list.splits)
  have U''sub: "set U'' \<subseteq> set U"
    by (auto simp: U''_def split: list.splits)
  have sU'': "sorted_keys U''"
    using sU U''cases sorted_keys_tl[of U] by (auto simp: sorted_keys_Nil)
  have aU'': "distinct_adj (map snd U'')"
    using aU U''cases distinct_adj_map_tl[of snd U] by auto
  have hU'': "U'' = [] \<or> snd (hd U'') \<noteq> val"
  proof (cases U)
    case Nil
    then show ?thesis by (simp add: U''_def)
  next
    case (Cons u U')
    then show ?thesis
      using aU by (cases u; cases U') (auto simp: U''_def distinct_adj_Cons)
  qed
  have a: "distinct_adj (map snd (P @ B @ U''))"
    unfolding distinct_adj_map_append using aP aU'' hU''
    by (auto simp: B_def distinct_adj_Cons split: if_splits)
  have U''gt: "\<forall>e \<in> set U''. keyBegin < fst e" using Ugt U''sub by blast
  have PU'': "\<forall>x \<in> set P. \<forall>y \<in> set U''. fst x < fst y"
    using P U''gt by (meson order.strict_trans)
  have b: "sorted_keys (P @ B @ U'')"
    using sP sU'' P U''gt PU''
    by (auto simp: B_def sorted_keys_append sorted_keys_Cons sorted_keys_Nil)
  have c: "\<forall>e \<in> set (P @ B @ U''). e \<in> set xs \<or> e = (keyBegin, val)
            \<or> (fst e = keyEnd \<and> (\<exists>e' \<in> set xs. keyEnd < fst e'))"
  proof
    fix e assume "e \<in> set (P @ B @ U'')"
    then consider "e \<in> set P" | "e = (keyBegin, val)" | "e \<in> set U"
      using U''sub by (auto simp: B_def split: if_splits)
    then show "e \<in> set xs \<or> e = (keyBegin, val)
            \<or> (fst e = keyEnd \<and> (\<exists>e' \<in> set xs. keyEnd < fst e'))"
      using Usub Psub by cases auto
  qed
  from a b c res have props: "\<forall>xs3. insert_new keyBegin val val past_end (P @ K @ U) = Inr xs3 \<longrightarrow>
            distinct_adj (map snd xs3) \<and> sorted_keys xs3
          \<and> (\<forall>e \<in> set xs3. e \<in> set xs \<or> e = (keyBegin, val)
                 \<or> (fst e = keyEnd \<and> (\<exists>e' \<in> set xs. keyEnd < fst e')))"
    by blast
  from er props tot show ?thesis by blast
qed

lemma sorted_keys_last_unique:
  assumes "sorted_keys xs" and "e \<in> set xs" and "fst e = fst (last xs)"
  shows "e = last xs"
proof -
  from assms(2) have ne: "xs \<noteq> []" by auto
  then have "last xs \<in> set xs" by simp
  then have "(fst e, snd (last xs)) \<in> set xs" using assms(3) by simp
  with assms(2) have "snd e = snd (last xs)"
    using sorted_keys_unique[OF assms(1), of "fst e" "snd e" "snd (last xs)"] by simp
  with assms(3) show ?thesis by (rule prod_eqI)
qed

section \<open>The last steps of the general phase\<close>

lemma finish_shape:
  fixes keyBegin keyEnd :: "'k::linorder"
  assumes s3: "sorted_keys xs3"
    and e3: "\<forall>e \<in> set xs3. e \<in> set xs \<or> e = (keyBegin, val)
            \<or> (fst e = keyEnd \<and> (\<exists>e' \<in> set xs. keyEnd < fst e'))"
    and srt: "sorted_keys xs"
    and sent: "snd (last xs) = d"
    and lt: "keyBegin < keyEnd"
    and lk: "last_key = (if fst (last xs) < keyEnd then keyEnd else fst (last xs))"
  shows "\<exists>A xs4 B. xs3 = A @ xs4 @ B \<and> (xs4 \<noteq> [] \<longrightarrow> snd (hd xs4) \<noteq> d)
     \<and> (finish d last_key xs3 = xs4 \<and> (xs4 = [] \<or> snd (last xs4) = d)
        \<or> finish d last_key xs3 = xs4 @ [(last_key, d)] \<and> xs4 \<noteq> [] \<and> snd (last xs4) \<noteq> d
          \<and> (\<forall>e \<in> set xs4. fst e < last_key))"
proof -
  define xs4 where "xs4 = canonize_back d (canonize_front d xs3)"
  have res: "finish d last_key xs3 = (if xs4 = [] then xs4
                     else if snd (last xs4) \<noteq> d then insert_or_assign last_key d xs4
                     else xs4)"
    by (simp add: finish_def xs4_def Let_def)
  obtain A where A: "A @ canonize_front d xs3 = xs3"
    using canonize_front_suffix[of xs3 d] by metis
  from canonize_back_prefix[of "canonize_front d xs3" d]
  obtain B where "canonize_front d xs3 = canonize_back d (canonize_front d xs3) @ B" ..
  then have B: "canonize_front d xs3 = xs4 @ B" by (simp only: xs4_def)
  have xs3: "xs3 = A @ xs4 @ B"
    unfolding B[symmetric] by (rule A[symmetric])
  have s4: "sorted_keys xs4"
    using s3 unfolding xs3 by (simp add: sorted_keys_append)
  have sub: "set xs4 \<subseteq> set xs3" unfolding xs3 by auto
  have hd4: "xs4 \<noteq> [] \<longrightarrow> snd (hd xs4) \<noteq> d"
  proof
    assume ne: "xs4 \<noteq> []"
    then have "canonize_front d xs3 \<noteq> []" using B by auto
    then have "snd (hd (canonize_front d xs3)) \<noteq> d" by (rule canonize_front_hd)
    moreover have "hd xs4 = hd (canonize_front d xs3)"
      using ne unfolding xs4_def by (rule canonize_back_hd)
    ultimately show "snd (hd xs4) \<noteq> d" by simp
  qed
  have le_lk: "fst e \<le> last_key" if "e \<in> set xs" for e
    using sorted_keys_last_max[OF srt that] by (auto simp: lk)
  have key_le: "fst e \<le> last_key" if "e \<in> set xs4" for e
  proof -
    from that sub e3 consider "e \<in> set xs" | "e = (keyBegin, val)" | "fst e = keyEnd"
      by blast
    then show ?thesis
    proof cases
      case 1
      then show ?thesis by (rule le_lk)
    next
      case 2
      then show ?thesis using lt by (auto simp: lk)
    next
      case 3
      then show ?thesis by (auto simp: lk)
    qed
  qed
  show ?thesis
  proof (cases "xs4 = [] \<or> snd (last xs4) = d")
    case True
    then have "finish d last_key xs3 = xs4" by (auto simp: res)
    with xs3 hd4 True show ?thesis by blast
  next
    case False
    then have ne: "xs4 \<noteq> []" and nd: "snd (last xs4) \<noteq> d" by auto
    have key_lt: "fst e < last_key" if e: "e \<in> set xs4" for e
    proof (rule ccontr)
      assume "\<not> fst e < last_key"
      with key_le[OF e] have eq: "fst e = last_key" by simp
      have l4: "last xs4 \<in> set xs4" using ne by simp
      have "fst e \<le> fst (last xs4)" using sorted_keys_last_max[OF s4 e] .
      with key_le[OF l4] eq have "fst e = fst (last xs4)" by simp
      then have el: "e = last xs4" using sorted_keys_last_unique[OF s4 e] by simp
      from e sub e3 consider "e \<in> set xs" | "e = (keyBegin, val)"
        | "fst e = keyEnd" "\<exists>e' \<in> set xs. keyEnd < fst e'"
        by blast
      then show False
      proof cases
        case 1
        then have "fst e \<le> fst (last xs)" using sorted_keys_last_max[OF srt] by blast
        with eq have "fst e = fst (last xs)" by (auto simp: lk split: if_splits)
        then have "e = last xs" using sorted_keys_last_unique[OF srt 1] by simp
        with sent el nd show False by simp
      next
        case 2
        with eq lt show False by (auto simp: lk split: if_splits)
      next
        case 3
        then obtain e' where e': "e' \<in> set xs" "keyEnd < fst e'" by blast
        from le_lk[OF e'(1)] e'(2) 3(1) eq show False by simp
      qed
    qed
    have r: "finish d last_key xs3 = xs4 @ [(last_key, d)]"
    proof -
      have "insert_or_assign last_key d (xs4 @ []) = xs4 @ insert_or_assign last_key d []"
        using key_lt by (intro insert_or_assign_append) blast
      then show ?thesis using ne nd by (simp add: res)
    qed
    from xs3 hd4 r ne nd key_lt show ?thesis by blast
  qed
qed

lemma finish_bounded:
  fixes keyBegin keyEnd :: "'k::linorder"
  assumes s3: "sorted_keys xs3"
    and e3: "\<forall>e \<in> set xs3. e \<in> set xs \<or> e = (keyBegin, val)
            \<or> (fst e = keyEnd \<and> (\<exists>e' \<in> set xs. keyEnd < fst e'))"
    and srt: "sorted_keys xs"
    and sent: "snd (last xs) = d"
    and lt: "keyBegin < keyEnd"
    and lk: "last_key = (if fst (last xs) < keyEnd then keyEnd else fst (last xs))"
    and res: "res = finish d last_key xs3"
  shows "sorted_keys res \<and> (res = [] \<or> (snd (hd res) \<noteq> d \<and> snd (last res) = d))
     \<and> (distinct_adj (map snd xs3) \<longrightarrow> distinct_adj (d # map snd res))"
proof -
  from finish_shape[OF s3 e3 srt sent lt lk]
  obtain A xs4 B where xs3: "xs3 = A @ xs4 @ B"
    and hd4: "xs4 \<noteq> [] \<longrightarrow> snd (hd xs4) \<noteq> d"
    and cases: "res = xs4 \<and> (xs4 = [] \<or> snd (last xs4) = d)
        \<or> res = xs4 @ [(last_key, d)] \<and> xs4 \<noteq> [] \<and> snd (last xs4) \<noteq> d
          \<and> (\<forall>e \<in> set xs4. fst e < last_key)"
    unfolding res by blast
  have s4: "sorted_keys xs4"
    using s3 unfolding xs3 by (simp add: sorted_keys_append)
  have c4: "distinct_adj (d # map snd xs4)" if "distinct_adj (map snd xs3)"
  proof -
    from that have "distinct_adj (map snd xs4)"
      unfolding xs3 by (simp add: distinct_adj_append_iff)
    with hd4 show ?thesis by (cases xs4) (auto simp: distinct_adj_Cons)
  qed
  from cases show ?thesis
  proof
    assume "res = xs4 \<and> (xs4 = [] \<or> snd (last xs4) = d)"
    then show ?thesis using s4 hd4 c4 by auto
  next
    assume a: "res = xs4 @ [(last_key, d)] \<and> xs4 \<noteq> [] \<and> snd (last xs4) \<noteq> d
          \<and> (\<forall>e \<in> set xs4. fst e < last_key)"
    then have r: "res = xs4 @ [(last_key, d)]" and ne: "xs4 \<noteq> []"
      and nd: "snd (last xs4) \<noteq> d" and key_lt: "\<forall>e \<in> set xs4. fst e < last_key"
      by blast+
    have "sorted_keys res"
      unfolding r using s4 key_lt by (simp add: sorted_keys_append sorted_keys_Cons sorted_keys_Nil)
    moreover have "snd (hd res) \<noteq> d" unfolding r using hd4 ne by simp
    moreover have "snd (last res) = d" by (simp add: r)
    moreover have "distinct_adj (d # map snd res)" if "distinct_adj (map snd xs3)"
      unfolding r using c4[OF that] nd ne
      by (auto simp: distinct_adj_Cons distinct_adj_append_iff last_map)
    ultimately show ?thesis by blast
  qed
qed

lemma assign_with_general:
  assumes lt: "keyBegin < keyEnd" and ne: "m_map m \<noteq> []"
    and sc: "scan keyBegin keyEnd val (lower_bound keyBegin (m_map m)) (None, []) = (rz, wd)"
  shows "assign_with m keyBegin keyEnd val val_now past_end =
     (case erase_all wd (case rz of None \<Rightarrow> m_map m
                                  | Some (k, v) \<Rightarrow> insert_or_assign k v (m_map m)) of
        Inl e \<Rightarrow> Inl e
      | Inr xs2 \<Rightarrow>
          (case insert_new keyBegin val val_now past_end xs2 of
             Inl e \<Rightarrow> Inl e
           | Inr xs3 \<Rightarrow>
               Inr (m\<lparr>m_map := finish (m_valBegin m)
                      (if fst (last (m_map m)) < keyEnd then keyEnd else fst (last (m_map m)))
                      xs3\<rparr>)))"
  using lt ne unfolding assign_with_def Let_def sc finish_def
  by (simp split: sum.splits)

section \<open>The general phase on any map, however the argument is passed\<close>

lemma set_insert_or_assign:
  "set (insert_or_assign k v xs) \<subseteq> insert (k, v) (set xs)"
  by (induction xs) (auto split: if_splits)

lemma sorted_keys_insert_or_assign:
  "sorted_keys xs \<Longrightarrow> sorted_keys (insert_or_assign k v xs)"
proof (induction xs)
  case Nil
  then show ?case by (simp add: sorted_keys_def)
next
  case (Cons x xs)
  obtain k' v' where x: "x = (k', v')" by (cases x)
  from Cons.prems have sxs: "sorted_keys xs" and gt: "\<forall>y \<in> set xs. k' < fst y"
    by (simp_all add: sorted_keys_Cons x)
  consider "k < k'" | "k' < k" | "k = k'" by (meson less_linear)
  then show ?case
  proof cases
    case 1
    then have "\<forall>y \<in> set xs. k < fst y" using gt by (meson order.strict_trans)
    with 1 sxs gt show ?thesis by (simp add: x sorted_keys_Cons)
  next
    case 2
    then have nk: "\<not> k < k'" by simp
    have "\<forall>y \<in> set (insert_or_assign k v xs). k' < fst y"
      using set_insert_or_assign[of k v xs] gt 2 by auto
    with 2 nk Cons.IH[OF sxs] show ?thesis by (simp add: x sorted_keys_Cons)
  next
    case 3
    with sxs gt show ?thesis by (simp add: x sorted_keys_Cons)
  qed
qed

lemma scan_Cons_step:
  "\<exists>r' wd'. (r' = r \<or> (r' = Some (keyEnd, v) \<and> rest \<noteq> [] \<and> keyEnd < fst (hd rest)))
     \<and> scan keyBegin keyEnd val ((k, v) # rest) (r, wd) =
         (if k < keyEnd then scan keyBegin keyEnd val rest (r', wd') else (r', wd'))"
  by (subst scan.simps(2)) (auto simp: Let_def split: list.splits)

lemma scan_resized:
  "scan keyBegin keyEnd val xs (r0, wd0) = (rz, wd) \<Longrightarrow>
     rz = r0 \<or> (\<exists>v. rz = Some (keyEnd, v) \<and> (\<exists>e \<in> set xs. keyEnd < fst e))"
proof (induction xs arbitrary: r0 wd0)
  case Nil
  then show ?case by simp
next
  case (Cons x xs)
  obtain k v where x: "x = (k, v)" by (cases x)
  from scan_Cons_step[of r0 keyEnd v xs keyBegin val k wd0]
  obtain r' wd' where
    r': "r' = r0 \<or> (r' = Some (keyEnd, v) \<and> xs \<noteq> [] \<and> keyEnd < fst (hd xs))"
    and st: "scan keyBegin keyEnd val ((k, v) # xs) (r0, wd0) =
         (if k < keyEnd then scan keyBegin keyEnd val xs (r', wd') else (r', wd'))"
    by blast
  have r'': "r' = r0 \<or> (\<exists>v. r' = Some (keyEnd, v) \<and> (\<exists>e \<in> set (x # xs). keyEnd < fst e))"
    using r' by (cases xs) auto
  show ?case
  proof (cases "k < keyEnd")
    case True
    with Cons.prems st x have "scan keyBegin keyEnd val xs (r', wd') = (rz, wd)" by simp
    from Cons.IH[OF this]
    have "rz = r' \<or> (\<exists>v. rz = Some (keyEnd, v) \<and> (\<exists>e \<in> set xs. keyEnd < fst e))" .
    with r'' show ?thesis by auto
  next
    case False
    with Cons.prems st x have "rz = r'" by simp
    with r'' show ?thesis by simp
  qed
qed

lemma insert_new_filter:
  assumes a: "insert_new keyBegin val val_now past_end xs = Inr ys"
  shows "\<exists>Q. ys = filter Q (insert_or_assign keyBegin val xs)"
proof -
  define xs1 where "xs1 = insert_or_assign keyBegin val xs"
  define inner :: "error + ('a \<times> 'b) list" where
    "inner = (case next_of keyBegin xs1 of
              [] \<Rightarrow>
                (case past_end of
                   None \<Rightarrow> Inl EndDereferenced
                 | Some g \<Rightarrow> if g = val_now then Inl EndErased else Inr xs1)
            | (ka, va) # _ \<Rightarrow> Inr (if va = val_now then erase ka xs1 else xs1))"
  have unf: "insert_new keyBegin val val_now past_end xs =
      (case inner of
         Inl e \<Rightarrow> Inl e
       | Inr xs2 \<Rightarrow>
           if before keyBegin xs2 \<noteq> [] then
             (if snd (last (before keyBegin xs2)) = val_now then Inr (erase keyBegin xs2)
              else Inr xs2)
           else Inr xs2)"
    unfolding insert_new_def Let_def xs1_def inner_def ..
  obtain xs2 where i: "inner = Inr xs2"
    using a unfolding unf by (cases inner) simp_all
  have "xs2 = xs1 \<or> (\<exists>k. xs2 = erase k xs1)"
    using i unfolding inner_def
    by (auto split: list.splits option.splits if_splits)
  then obtain Q1 where q1: "xs2 = filter Q1 xs1"
  proof
    assume "xs2 = xs1"
    then have "xs2 = filter (\<lambda>_. True) xs1" by simp
    then show ?thesis by (rule that)
  next
    assume "\<exists>k. xs2 = erase k xs1"
    then obtain k where "xs2 = filter (\<lambda>e. fst e \<noteq> k) xs1" by (auto simp: erase_def)
    then show ?thesis by (rule that)
  qed
  have "ys = xs2 \<or> ys = erase keyBegin xs2"
    using a unfolding unf i by (auto split: if_splits)
  then show ?thesis
  proof
    assume "ys = xs2"
    with q1 show ?thesis unfolding xs1_def by blast
  next
    assume "ys = erase keyBegin xs2"
    then have "ys = filter (\<lambda>e. Q1 e \<and> fst e \<noteq> keyBegin) xs1"
      unfolding q1 erase_def by simp
    then show ?thesis unfolding xs1_def by blast
  qed
qed

lemma any_phase_entries:
  fixes keyBegin keyEnd :: "'k::linorder"
  assumes srt: "sorted_keys xs"
    and sc: "scan keyBegin keyEnd val (lower_bound keyBegin xs) (None, []) = (rz, wd)"
    and er: "erase_all wd (case rz of None \<Rightarrow> xs | Some (k, v) \<Rightarrow> insert_or_assign k v xs)
               = Inr xs2"
    and ins: "insert_new keyBegin val val_now past_end xs2 = Inr xs3"
  shows "sorted_keys xs3
     \<and> (\<forall>e \<in> set xs3. e \<in> set xs \<or> e = (keyBegin, val)
            \<or> (fst e = keyEnd \<and> (\<exists>e' \<in> set xs. keyEnd < fst e')))"
proof -
  define xs1 where "xs1 = (case rz of None \<Rightarrow> xs | Some (k, v) \<Rightarrow> insert_or_assign k v xs)"
  have lbsub: "set (lower_bound keyBegin xs) \<subseteq> set xs"
    unfolding lower_bound_def by (meson set_dropWhileD subsetI)
  from scan_resized[OF sc]
  have rz: "rz = None \<or> (\<exists>v. rz = Some (keyEnd, v) \<and> (\<exists>e \<in> set xs. keyEnd < fst e))"
    using lbsub by blast
  have s1: "sorted_keys xs1"
    unfolding xs1_def using srt
    by (auto split: option.splits intro: sorted_keys_insert_or_assign)
  have e1: "\<forall>e \<in> set xs1. e \<in> set xs \<or> (fst e = keyEnd \<and> (\<exists>e' \<in> set xs. keyEnd < fst e'))"
  proof (cases rz)
    case None
    then show ?thesis by (simp add: xs1_def)
  next
    case (Some p)
    with rz obtain v where p: "p = (keyEnd, v)" and ex: "\<exists>e \<in> set xs. keyEnd < fst e"
      by auto
    have "set xs1 \<subseteq> insert (keyEnd, v) (set xs)"
      unfolding xs1_def Some p using set_insert_or_assign[of keyEnd v xs] by simp
    with ex show ?thesis by auto
  qed
  have xs2: "xs2 = filter (\<lambda>e. fst e \<notin> set wd) xs1"
    using erase_all_Inr[OF er[folded xs1_def]] .
  have s2: "sorted_keys xs2" unfolding xs2 using s1 by (rule sorted_keys_filter)
  have e2: "set xs2 \<subseteq> set xs1" unfolding xs2 by auto
  from insert_new_filter[OF ins] obtain Q where
    xs3: "xs3 = filter Q (insert_or_assign keyBegin val xs2)" by blast
  have s3: "sorted_keys xs3"
    unfolding xs3 using s2 by (intro sorted_keys_filter sorted_keys_insert_or_assign)
  have "set xs3 \<subseteq> insert (keyBegin, val) (set xs2)"
    unfolding xs3 using set_insert_or_assign[of keyBegin val xs2] by auto
  with e2 e1 have "\<forall>e \<in> set xs3. e \<in> set xs \<or> e = (keyBegin, val)
            \<or> (fst e = keyEnd \<and> (\<exists>e' \<in> set xs. keyEnd < fst e'))"
    by blast
  with s3 show ?thesis by blast
qed

lemma assign_with_keeps_bounded:
  assumes bd: "bounded m"
    and asg: "assign_with m keyBegin keyEnd val val_now past_end = Inr m'"
  shows "bounded m' \<and> m_valBegin m' = m_valBegin m"
proof -
  consider "\<not> keyBegin < keyEnd" | "keyBegin < keyEnd" "m_map m = []"
    | "keyBegin < keyEnd" "m_map m \<noteq> []" by blast
  then show ?thesis
  proof cases
    case 1
    with asg have "m' = m" by (simp add: assign_with_def)
    with bd show ?thesis by simp
  next
    case 2
    with asg have "m' = (if val = m_valBegin m then m
         else m\<lparr>m_map := [(keyBegin, val), (keyEnd, m_valBegin m)]\<rparr>)"
      by (simp add: assign_with_def split: if_splits)
    with bd 2 show ?thesis
      by (auto simp: bounded_def sorted_keys_def)
  next
    case 3
    obtain rz wd where
      sc: "scan keyBegin keyEnd val (lower_bound keyBegin (m_map m)) (None, []) = (rz, wd)"
      by (metis surj_pair)
    note unf = assign_with_general[OF 3 sc, of val_now past_end]
    obtain xs2 where er: "erase_all wd (case rz of None \<Rightarrow> m_map m
                                  | Some (k, v) \<Rightarrow> insert_or_assign k v (m_map m)) = Inr xs2"
      using asg unfolding unf
      by (cases "erase_all wd (case rz of None \<Rightarrow> m_map m
                                  | Some (k, v) \<Rightarrow> insert_or_assign k v (m_map m))") simp_all
    obtain xs3 where ins: "insert_new keyBegin val val_now past_end xs2 = Inr xs3"
      using asg unfolding unf er
      by (cases "insert_new keyBegin val val_now past_end xs2") simp_all
    define last_key where
      "last_key = (if fst (last (m_map m)) < keyEnd then keyEnd else fst (last (m_map m)))"
    from asg have m': "m' = m\<lparr>m_map := finish (m_valBegin m) last_key xs3\<rparr>"
      unfolding unf last_key_def by (simp add: er ins)
    from bd 3 have srt: "sorted_keys (m_map m)"
      and sent: "snd (last (m_map m)) = m_valBegin m"
      by (auto simp: bounded_def)
    from any_phase_entries[OF srt sc er ins]
    have s3: "sorted_keys xs3"
      and e3: "\<forall>e \<in> set xs3. e \<in> set (m_map m) \<or> e = (keyBegin, val)
            \<or> (fst e = keyEnd \<and> (\<exists>e' \<in> set (m_map m). keyEnd < fst e'))"
      by blast+
    from finish_bounded[OF s3 e3 srt sent 3(1) last_key_def refl]
    show ?thesis by (simp add: m' bounded_def)
  qed
qed

section \<open>Calls that leave the argument unchanged, on a canonical map\<close>

lemma well_formed_bounded: "well_formed m \<Longrightarrow> bounded m"
  by (auto simp: well_formed_def bounded_def is_canonical_def split: list.splits if_splits)

lemma assign_with_plain:
  assumes wf: "well_formed m"
  shows "(assign_with m keyBegin keyEnd val val past_end = Inr m' \<longrightarrow> well_formed m')
     \<and> (past_end \<noteq> None \<and> past_end \<noteq> Some val \<longrightarrow>
          (\<exists>m''. assign_with m keyBegin keyEnd val val past_end = Inr m''))"
proof -
  consider "\<not> keyBegin < keyEnd" | "keyBegin < keyEnd" "m_map m = []"
    | "keyBegin < keyEnd" "m_map m \<noteq> []" by blast
  then show ?thesis
  proof cases
    case 1
    then have "assign_with m keyBegin keyEnd val val past_end = Inr m"
      by (simp add: assign_with_def)
    with wf show ?thesis by auto
  next
    case 2
    then have "assign_with m keyBegin keyEnd val val past_end =
        Inr (if val = m_valBegin m then m
             else m\<lparr>m_map := [(keyBegin, val), (keyEnd, m_valBegin m)]\<rparr>)"
      by (simp add: assign_with_def)
    moreover have "well_formed (if val = m_valBegin m then m
             else m\<lparr>m_map := [(keyBegin, val), (keyEnd, m_valBegin m)]\<rparr>)"
      using wf 2 by (auto simp: well_formed_def sorted_keys_def is_canonical_def)
    ultimately show ?thesis by auto
  next
    case 3
    obtain rz wd where
      sc: "scan keyBegin keyEnd val (lower_bound keyBegin (m_map m)) (None, []) = (rz, wd)"
      by (metis surj_pair)
    note unf = assign_with_general[OF 3 sc, of val past_end]
    from wf have srt: "sorted_keys (m_map m)"
      and can: "distinct_adj (m_valBegin m # map snd (m_map m))"
      and sent: "snd (last (m_map m)) = m_valBegin m"
      using 3 by (auto simp: well_formed_def is_canonical_distinct_adj)
    from can have adj: "distinct_adj (map snd (m_map m))"
      by (cases "m_map m") (auto simp: distinct_adj_Cons)
    from general_phase_entries[OF srt adj 3(1) sc, of past_end]
    obtain xs2 where
      er: "erase_all wd (case rz of None \<Rightarrow> m_map m
                                  | Some (k, v) \<Rightarrow> insert_or_assign k v (m_map m)) = Inr xs2"
      and props: "\<forall>xs3. insert_new keyBegin val val past_end xs2 = Inr xs3 \<longrightarrow>
            distinct_adj (map snd xs3) \<and> sorted_keys xs3
          \<and> (\<forall>e \<in> set xs3. e \<in> set (m_map m) \<or> e = (keyBegin, val)
                 \<or> (fst e = keyEnd \<and> (\<exists>e' \<in> set (m_map m). keyEnd < fst e')))"
      and tot: "past_end \<noteq> None \<and> past_end \<noteq> Some val \<longrightarrow>
            (\<exists>xs3. insert_new keyBegin val val past_end xs2 = Inr xs3)"
      by blast
    define last_key where
      "last_key = (if fst (last (m_map m)) < keyEnd then keyEnd else fst (last (m_map m)))"
    have step: "assign_with m keyBegin keyEnd val val past_end
        = Inr (m\<lparr>m_map := finish (m_valBegin m) last_key xs3\<rparr>)
      \<and> well_formed (m\<lparr>m_map := finish (m_valBegin m) last_key xs3\<rparr>)"
      if ins: "insert_new keyBegin val val past_end xs2 = Inr xs3" for xs3
    proof -
      from props ins have a3: "distinct_adj (map snd xs3)" and s3: "sorted_keys xs3"
        and e3: "\<forall>e \<in> set xs3. e \<in> set (m_map m) \<or> e = (keyBegin, val)
                 \<or> (fst e = keyEnd \<and> (\<exists>e' \<in> set (m_map m). keyEnd < fst e'))"
        by blast+
      from finish_bounded[OF s3 e3 srt sent 3(1) last_key_def refl] a3
      have "well_formed (m\<lparr>m_map := finish (m_valBegin m) last_key xs3\<rparr>)"
        by (auto simp: well_formed_def is_canonical_distinct_adj)
      moreover have "assign_with m keyBegin keyEnd val val past_end
        = Inr (m\<lparr>m_map := finish (m_valBegin m) last_key xs3\<rparr>)"
        unfolding unf last_key_def by (simp add: er ins)
      ultimately show ?thesis by blast
    qed
    have 1: "assign_with m keyBegin keyEnd val val past_end = Inr m' \<longrightarrow> well_formed m'"
    proof
      assume asg: "assign_with m keyBegin keyEnd val val past_end = Inr m'"
      obtain xs3 where ins: "insert_new keyBegin val val past_end xs2 = Inr xs3"
        using asg unfolding unf er
        by (cases "insert_new keyBegin val val past_end xs2") simp_all
      from step[OF ins] asg show "well_formed m'" by simp
    qed
    have 2: "past_end \<noteq> None \<and> past_end \<noteq> Some val \<longrightarrow>
          (\<exists>m''. assign_with m keyBegin keyEnd val val past_end = Inr m'')"
      using tot step by blast
    from 1 2 show ?thesis by blast
  qed
qed

lemma assign_all_with_keeps_bounded:
  "bounded m \<Longrightarrow> assign_all_with m calls = Inr m' \<Longrightarrow>
     bounded m' \<and> m_valBegin m' = m_valBegin m"
proof (induction calls arbitrary: m)
  case Nil
  then show ?case by simp
next
  case (Cons c calls)
  obtain keyBegin keyEnd val val_now past_end
    where c: "c = (keyBegin, keyEnd, val, val_now, past_end)" by (cases c)
  from Cons.prems(2) c obtain m1 where
    m1: "assign_with m keyBegin keyEnd val val_now past_end = Inr m1"
    and rest: "assign_all_with m1 calls = Inr m'"
    by (cases "assign_with m keyBegin keyEnd val val_now past_end") simp_all
  from assign_with_keeps_bounded[OF Cons.prems(1) m1]
  have b1: "bounded m1" and d1: "m_valBegin m1 = m_valBegin m" by simp_all
  from Cons.IH[OF b1 rest] d1 show ?case by simp
qed

lemma assign_all_with_plain:
  "well_formed m \<Longrightarrow> \<forall>c \<in> set calls. plain_call c \<Longrightarrow>
     \<exists>m'. assign_all_with m calls = Inr m' \<and> well_formed m'"
proof (induction calls arbitrary: m)
  case Nil
  then show ?case by simp
next
  case (Cons c calls)
  obtain keyBegin keyEnd val val_now past_end
    where c: "c = (keyBegin, keyEnd, val, val_now, past_end)" by (cases c)
  from Cons.prems(2) c have vn: "val_now = val" and pe: "past_end \<noteq> None \<and> past_end \<noteq> Some val"
    by (simp_all add: plain_call_def)
  from assign_with_plain[OF Cons.prems(1), of keyBegin keyEnd val past_end] pe
  obtain m1 where m1: "assign_with m keyBegin keyEnd val val past_end = Inr m1" by blast
  from assign_with_plain[OF Cons.prems(1), of keyBegin keyEnd val past_end m1] m1
  have wf1: "well_formed m1" by blast
  from Cons.prems(2) have "\<forall>c \<in> set calls. plain_call c" by simp
  from Cons.IH[OF wf1 this] obtain m' where
    "assign_all_with m1 calls = Inr m'" "well_formed m'" by blast
  then show ?case using c vn m1 by simp
qed

lemma well_formed_new_map: "well_formed (new_map d)"
  by (simp add: well_formed_def new_map_def is_canonical_def sorted_keys_def)

lemma bounded_size:
  assumes "bounded m"
  shows "size_of m = 0 \<or> 2 \<le> size_of m"
proof (cases "m_map m")
  case Nil
  then show ?thesis by (simp add: size_of_def)
next
  case (Cons e es)
  with assms have "snd e \<noteq> m_valBegin m" "snd (last (e # es)) = m_valBegin m"
    by (simp_all add: bounded_def)
  then have "es \<noteq> []" by auto
  then show ?thesis using Cons by (cases es) (simp_all add: size_of_def)
qed

section \<open>Sequences of calls from a new map\<close>

text \<open>
  C9. Start from a freshly constructed map and apply any sequence of calls of \<open>assign\<close>,
  each with its argument passed in any way and with any outcome of a read through
  \<open>end()\<close>. If the calls return, \<open>m_valBegin\<close> is the value given at construction and the
  last entry, if there is one, holds \<open>m_valBegin\<close>. If every call leaves its argument
  unchanged and reads through \<open>end()\<close> a value other than its argument, the calls do
  return, and the same holds of the map they return. The sequence is arbitrary, so this
  holds after each call of it.
\<close>

theorem assign_sequence_trailing_default:
  "(assign_all_with (new_map d) calls = Inr m' \<longrightarrow>
      m_valBegin m' = d \<and> (m_map m' = [] \<or> snd (last (m_map m')) = m_valBegin m'))
   \<and> ((\<forall>c \<in> set calls. plain_call c) \<longrightarrow>
        (\<exists>m''. assign_all_with (new_map d) calls = Inr m''
           \<and> (m_map m'' = [] \<or> snd (last (m_map m'')) = d)))"
proof -
  have bd: "bounded (new_map d)"
    using well_formed_new_map by (rule well_formed_bounded)
  have 1: "m_valBegin m' = d \<and> (m_map m' = [] \<or> snd (last (m_map m')) = m_valBegin m')"
    if "assign_all_with (new_map d) calls = Inr m'" for m'
    using assign_all_with_keeps_bounded[OF bd that]
    by (auto simp: bounded_def new_map_def)
  have "\<exists>m''. assign_all_with (new_map d) calls = Inr m''
           \<and> (m_map m'' = [] \<or> snd (last (m_map m'')) = d)"
    if "\<forall>c \<in> set calls. plain_call c"
  proof -
    from assign_all_with_plain[OF well_formed_new_map that]
    obtain m'' where r: "assign_all_with (new_map d) calls = Inr m''" by blast
    from 1[OF r] r show ?thesis by auto
  qed
  with 1 show ?thesis by blast
qed

theorem assign_sequence_trailing_default_witness:
  "plain_call (1::int, 5::int, CHR ''B'', CHR ''B'', Some (CHR 0x00))
   \<and> plain_call (3::int, 7::int, CHR ''C'', CHR ''C'', Some (CHR 0x00))
   \<and> plain_call (2::int, 4::int, CHR ''A'', CHR ''A'', Some (CHR 0x00))
   \<and> assign_all_with (new_map (CHR ''A''))
        [(1::int, 5, CHR ''B'', CHR ''B'', Some (CHR 0x00)),
         (3, 7, CHR ''C'', CHR ''C'', Some (CHR 0x00)),
         (2, 4, CHR ''A'', CHR ''A'', Some (CHR 0x00))]
       = Inr \<lparr>m_valBegin = CHR ''A'',
              m_map = [(1, CHR ''B''), (2, CHR ''A''), (4, CHR ''C''), (7, CHR ''A'')]\<rparr>
   \<and> snd (last [(1::int, CHR ''B''), (2, CHR ''A''), (4, CHR ''C''), (7, CHR ''A'')]) = CHR ''A''"
proof -
  let ?calls = "[(1::int, 5, CHR ''B'', CHR ''B'', Some (CHR 0x00)),
                 (3, 7, CHR ''C'', CHR ''C'', Some (CHR 0x00)),
                 (2, 4, CHR ''A'', CHR ''A'', Some (CHR 0x00))]"
  let ?r = "\<lparr>m_valBegin = CHR ''A'',
              m_map = [(1::int, CHR ''B''), (2, CHR ''A''), (4, CHR ''C''), (7, CHR ''A'')]\<rparr>"
  have p: "\<forall>c \<in> set ?calls. plain_call c" by (simp add: plain_call_def)
  have h: "assign_all_with (new_map (CHR ''A'')) ?calls = Inr ?r" by code_simp
  from assign_sequence_trailing_default[of "CHR ''A''" ?calls ?r] h
  have "m_map ?r = [] \<or> snd (last (m_map ?r)) = m_valBegin ?r" by blast
  with p h show ?thesis by simp
qed

text \<open>
  C10. Start from a freshly constructed map and apply any sequence of calls of \<open>assign\<close>,
  each with its argument passed in any way and with any outcome of a read through
  \<open>end()\<close>. If the calls return, the size is 0 or at least 2. If every call leaves its
  argument unchanged and reads through \<open>end()\<close> a value other than its argument, the
  calls do return, with a size that is 0 or at least 2. The sequence is arbitrary, so this
  holds after each call of it.
\<close>

theorem assign_sequence_size_not_one:
  "(assign_all_with (new_map d) calls = Inr m' \<longrightarrow> size_of m' = 0 \<or> 2 \<le> size_of m')
   \<and> ((\<forall>c \<in> set calls. plain_call c) \<longrightarrow>
        (\<exists>m''. assign_all_with (new_map d) calls = Inr m''
           \<and> (size_of m'' = 0 \<or> 2 \<le> size_of m'')))"
proof -
  have bd: "bounded (new_map d)"
    using well_formed_new_map by (rule well_formed_bounded)
  have 1: "size_of m' = 0 \<or> 2 \<le> size_of m'"
    if "assign_all_with (new_map d) calls = Inr m'" for m'
    using assign_all_with_keeps_bounded[OF bd that] bounded_size by blast
  have "\<exists>m''. assign_all_with (new_map d) calls = Inr m''
           \<and> (size_of m'' = 0 \<or> 2 \<le> size_of m'')"
    if "\<forall>c \<in> set calls. plain_call c"
  proof -
    from assign_all_with_plain[OF well_formed_new_map that]
    obtain m'' where r: "assign_all_with (new_map d) calls = Inr m''" by blast
    from 1[OF r] r show ?thesis by auto
  qed
  with 1 show ?thesis by blast
qed

theorem assign_sequence_size_not_one_witness:
  "plain_call (1::int, 3::int, CHR ''B'', CHR ''B'', Some (CHR 0x00))
   \<and> plain_call (0::int, 10::int, CHR ''C'', CHR ''C'', Some (CHR 0x00))
   \<and> assign_all_with (new_map (CHR ''A''))
        [(1::int, 3, CHR ''B'', CHR ''B'', Some (CHR 0x00)),
         (0, 10, CHR ''C'', CHR ''C'', Some (CHR 0x00))]
       = Inr \<lparr>m_valBegin = CHR ''A'', m_map = [(0, CHR ''C''), (10, CHR ''A'')]\<rparr>
   \<and> 2 \<le> size_of \<lparr>m_valBegin = CHR ''A'', m_map = [(0::int, CHR ''C''), (10, CHR ''A'')]\<rparr>"
proof -
  let ?calls = "[(1::int, 3, CHR ''B'', CHR ''B'', Some (CHR 0x00)),
                 (0, 10, CHR ''C'', CHR ''C'', Some (CHR 0x00))]"
  let ?r = "\<lparr>m_valBegin = CHR ''A'', m_map = [(0::int, CHR ''C''), (10, CHR ''A'')]\<rparr>"
  have p: "\<forall>c \<in> set ?calls. plain_call c" by (simp add: plain_call_def)
  have h: "assign_all_with (new_map (CHR ''A'')) ?calls = Inr ?r" by code_simp
  from assign_sequence_size_not_one[of "CHR ''A''" ?calls ?r] h
  have "size_of ?r = 0 \<or> 2 \<le> size_of ?r" by blast
  then have "2 \<le> size_of ?r" by (simp add: size_of_def)
  with p h show ?thesis by simp
qed

section \<open>Assigning \<open>m_valBegin\<close> over every stored key\<close>




section \<open>Calls with a temporary argument\<close>

text \<open>
  C2. The claim is that the map passes \<open>is_canonical\<close> after every call in a sequence
  from a freshly constructed map. With \<open>V = std::string\<close> and temporaries as arguments,
  \<open>assign(10, 20, std::string("B"))\<close> and \<open>assign(12, 15, std::string("B"))\<close> give the
  entries \<open>(10, "B")\<close>, \<open>(12, "B")\<close>, \<open>(20, "A")\<close>: line 109 moves from \<open>val\<close>, line 124
  compares the value at 10 with the moved-from (empty) string, and the new entry stays.
  No read through \<open>end()\<close> takes place (\<open>past_end\<close> is \<open>None\<close> and the calls return).
  The same calls with lvalue arguments leave \<open>(10, "B")\<close>, \<open>(20, "A")\<close>.
\<close>

theorem assign_temporary_not_canonical:
  "assign_all_with (new_map ''A'')
      [(10::int, 20, ''B'', '''', None), (12, 15, ''B'', '''', None)]
     = Inr \<lparr>m_valBegin = ''A'', m_map = [(10, ''B''), (12, ''B''), (20, ''A'')]\<rparr>
   \<and> \<not> is_canonical
         \<lparr>m_valBegin = ''A'', m_map = [(10::int, ''B''), (12, ''B''), (20, ''A'')]\<rparr>
   \<and> assign_all_with (new_map ''A'')
      [(10::int, 20, ''B'', ''B'', None), (12, 15, ''B'', ''B'', None)]
     = Inr \<lparr>m_valBegin = ''A'', m_map = [(10, ''B''), (20, ''A'')]\<rparr>"
  by code_simp

text \<open>
  C7. The claim is that a second \<open>assign\<close> with the same arguments gives the map of the
  first. With \<open>V = std::string\<close> and temporaries as arguments, after
  \<open>assign(5, 9, std::string("B"))\<close> the call \<open>assign(1, 2, std::string("B"))\<close> gives the
  entries at 1, 5 and 9 (line 114 compares the value at 5 with the moved-from string and
  does not merge), and the same call again gives the entries at 1 and 9 (the loop of
  lines 60 to 92 now marks the entry at 5). No read through \<open>end()\<close> takes place. With
  lvalue arguments both calls give the entries at 1 and 9.
\<close>

theorem assign_temporary_twice_differs:
  "assign_all_with (new_map ''A'') [(5::int, 9, ''B'', '''', None), (1, 2, ''B'', '''', None)]
     = Inr \<lparr>m_valBegin = ''A'', m_map = [(1, ''B''), (5, ''B''), (9, ''A'')]\<rparr>
   \<and> assign_with \<lparr>m_valBegin = ''A'', m_map = [(1::int, ''B''), (5, ''B''), (9, ''A'')]\<rparr>
        1 2 ''B'' '''' None
     = Inr \<lparr>m_valBegin = ''A'', m_map = [(1, ''B''), (9, ''A'')]\<rparr>
   \<and> assign_all_with (new_map ''A'') [(5::int, 9, ''B'', ''B'', None), (1, 2, ''B'', ''B'', None)]
     = Inr \<lparr>m_valBegin = ''A'', m_map = [(1, ''B''), (9, ''A'')]\<rparr>
   \<and> assign_with \<lparr>m_valBegin = ''A'', m_map = [(1::int, ''B''), (9, ''A'')]\<rparr>
        1 2 ''B'' ''B'' None
     = Inr \<lparr>m_valBegin = ''A'', m_map = [(1, ''B''), (9, ''A'')]\<rparr>"
  by code_simp

section \<open>Calls that reach the last entry\<close>

text \<open>
  With \<open>assign\<close>, where a read through \<open>end()\<close> is a failure: on a canonical map with
  entries, every call whose \<open>keyEnd\<close> lies beyond the last stored key fails, and so does a
  call with \<open>keyEnd\<close> at the last key and \<open>val\<close> equal to the last value. Every entry from
  \<open>keyBegin\<close> on is erased, the entry at \<open>keyBegin\<close> becomes the last one, and line 114
  reads the entry after it.
\<close>

lemma assign_up_to_the_end_fails:
  fixes keyBegin keyEnd :: "'k::linorder"
  assumes srt: "sorted_keys (m_map m)" and can: "is_canonical m"
    and ne: "m_map m \<noteq> []" and lt: "keyBegin < keyEnd"
    and cover: "fst (last (m_map m)) < keyEnd \<or> last (m_map m) = (keyEnd, val)"
  shows "assign m keyBegin keyEnd val = Inl EndDereferenced"
proof -
  from can have adj: "distinct_adj (map snd (m_map m))"
    unfolding is_canonical_distinct_adj
    by (cases "m_map m") (auto simp: distinct_adj_Cons)
  have all: "\<forall>e \<in> set (m_map m). fst e < keyEnd \<or> e = (keyEnd, val)"
  proof
    fix e assume e: "e \<in> set (m_map m)"
    have le: "fst e \<le> fst (last (m_map m))" using srt e by (rule sorted_keys_last_max)
    from cover show "fst e < keyEnd \<or> e = (keyEnd, val)"
    proof
      assume "fst (last (m_map m)) < keyEnd"
      with le have "fst e < keyEnd" by (rule le_less_trans)
      then show ?thesis ..
    next
      assume l: "last (m_map m) = (keyEnd, val)"
      show ?thesis
      proof (cases "fst e = fst (last (m_map m))")
        case True
        with srt e have "e = last (m_map m)" by (rule sorted_keys_last_unique)
        with l show ?thesis by simp
      next
        case False
        with le have "fst e < fst (last (m_map m))" by simp
        with l show ?thesis by simp
      qed
    qed
  qed
  obtain rz wd where
    sc: "scan keyBegin keyEnd val (lower_bound keyBegin (m_map m)) (None, []) = (rz, wd)"
    by (metis surj_pair)
  from srt adj lt sc obtain P K U where
    er: "erase_all wd (case rz of None \<Rightarrow> m_map m
                                | Some (k, v) \<Rightarrow> insert_or_assign k v (m_map m))
           = Inr (P @ K @ U)"
    and P: "\<forall>e \<in> set P. fst e < keyBegin"
    and Kc: "K = [] \<or> (\<exists>w. K = [(keyBegin, w)])"
    and Ugt: "\<forall>e \<in> set U. keyBegin < fst e" and sU: "sorted_keys U"
    and Uempty: "(\<forall>e \<in> set (m_map m). fst e < keyEnd \<or> e = (keyEnd, val)) \<longrightarrow> U = []"
    by (rule general_phase_cleared)
  from Uempty all have U: "U = []" by simp
  have "insert_new keyBegin val val None (P @ K @ U) = Inl EndDereferenced"
    unfolding insert_new_struct[OF P Kc Ugt sU] by (simp add: U)
  then show ?thesis
    unfolding assign_def assign_with_general[OF lt ne sc] by (simp add: er)
qed

text \<open>
  C3. The claim is that no access inside \<open>assign\<close> goes out of bounds on a canonical map.
  The sequence below is the one of \<open>test_overlapping_intervals\<close>: after
  \<open>assign(10, 20, 'B')\<close> the map is canonical, and \<open>assign(15, 25, 'C')\<close> erases the entry
  at 20, inserts the entry at 15 as the last one and reads \<open>std::next(insert)->second\<close>,
  which is \<open>end()\<close>.
\<close>

theorem assign_reads_past_last_entry:
  "assign (new_map (CHR ''A'')) (10::int) 20 (CHR ''B'')
     = Inr \<lparr>m_valBegin = CHR ''A'', m_map = [(10, CHR ''B''), (20, CHR ''A'')]\<rparr>
   \<and> is_canonical \<lparr>m_valBegin = CHR ''A'', m_map = [(10::int, CHR ''B''), (20, CHR ''A'')]\<rparr>
   \<and> assign \<lparr>m_valBegin = CHR ''A'', m_map = [(10::int, CHR ''B''), (20, CHR ''A'')]\<rparr>
        15 25 (CHR ''C'')
     = Inl EndDereferenced"
  by code_simp

section \<open>A call inside a stored interval\<close>

text \<open>
  C1. The claim is that \<open>assign\<close> changes no value outside \<open>[keyBegin, keyEnd)\<close>. When no
  stored key lies in \<open>[keyBegin, keyEnd)\<close> nothing is put at \<open>keyEnd\<close>: after
  \<open>assign(10, 20, 'B')\<close> and \<open>assign(12, 15, 'C')\<close> the key 15, outside \<open>[12, 15)\<close>, has the
  value \<open>'C'\<close>; before the second call it had \<open>'B'\<close>.
\<close>

theorem assign_inside_interval_changes_tail:
  "assign_all (new_map (CHR ''A'')) [(10::int, 20, CHR ''B'')]
     = Inr \<lparr>m_valBegin = CHR ''A'', m_map = [(10, CHR ''B''), (20, CHR ''A'')]\<rparr>
   \<and> assign \<lparr>m_valBegin = CHR ''A'', m_map = [(10::int, CHR ''B''), (20, CHR ''A'')]\<rparr>
        12 15 (CHR ''C'')
     = Inr \<lparr>m_valBegin = CHR ''A'',
            m_map = [(10, CHR ''B''), (12, CHR ''C''), (20, CHR ''A'')]\<rparr>
   \<and> value_at \<lparr>m_valBegin = CHR ''A'', m_map = [(10::int, CHR ''B''), (20, CHR ''A'')]\<rparr> 15
     = CHR ''B''
   \<and> value_at \<lparr>m_valBegin = CHR ''A'',
                m_map = [(10::int, CHR ''B''), (12, CHR ''C''), (20, CHR ''A'')]\<rparr> 15
     = CHR ''C''"
  by code_simp

end
